theory Spec2Isabelle
  imports Main "HOL-Library.Word" "HOL-Library.Char_ord" "HOL-Library.List_Lexorder"
begin

unbundle bit_operations_syntax

section \<open>Basic types (types.h)\<close>

type_synonym byte = "8 word"
type_synonym PageId = "32 word"
type_synonym TupleId = "64 word"
type_synonym TransactionId = "32 word"

text \<open>
  \<open>BufferFrameId\<close> is a \<open>uint32_t\<close> index into the frame vector. Frame ids are only ever
  produced by the constructor's loop counter, so they never wrap; they are modelled as \<open>nat\<close>.
\<close>

type_synonym BufferFrameId = nat

definition PAGE_SIZE :: nat where
  "PAGE_SIZE = 4096"

definition BUFFER_POOL_SIZE :: nat where
  "BUFFER_POOL_SIZE = 1000"

text \<open>
  What the source throws: \<open>runtime_error("No unpinned frames available")\<close> in
  \<open>findVictim\<close>, \<open>std::bad_variant_access\<close> from \<open>get<string>\<close>, and, for a
  \<open>memcpy\<close> that leaves its vector (undefined behaviour in C++), \<open>OutOfBounds\<close>.
\<close>

datatype error = NoUnpinnedFrames | BadVariantAccess | OutOfBounds | NullDeref

datatype LockType = SHARED | EXCLUSIVE

section \<open>Lock manager (transaction\_manager.h, transaction\_manager.cpp)\<close>

record LockRequest =
  page_id :: PageId
  lock_type :: LockType
  transaction_id :: TransactionId
  granted :: bool

text \<open>The constructor \<open>LockRequest(page_id, lock_type, transaction_id)\<close>: not granted.\<close>

definition new_LockRequest :: "PageId \<Rightarrow> LockType \<Rightarrow> TransactionId \<Rightarrow> LockRequest" where
  "new_LockRequest p lt t = \<lparr>page_id = p, lock_type = lt, transaction_id = t, granted = False\<rparr>"

text \<open>
  \<open>lock_table\<close> is an \<open>unordered_map<PageId, vector<LockRequest>>\<close> read with
  \<open>operator[]\<close>, which yields the empty vector for a page without an entry.
\<close>

type_synonym lock_table = "PageId \<Rightarrow> LockRequest list"

fun conflicts :: "LockRequest \<Rightarrow> LockRequest list \<Rightarrow> bool" where
  "conflicts request [] = False"
| "conflicts request (existing_request # rest) =
     (if granted existing_request \<and>
         (lock_type request = EXCLUSIVE \<or> lock_type existing_request = EXCLUSIVE)
      then True
      else conflicts request rest)"

definition canGrantLock :: "LockRequest \<Rightarrow> lock_table \<Rightarrow> bool" where
  "canGrantLock request lt = (\<not> conflicts request (lt (LockRequest.page_id request)))"

definition grantLock :: "LockRequest \<Rightarrow> LockRequest" where
  "grantLock request = request\<lparr>granted := True\<rparr>"

text \<open>
  The first loop of \<open>acquireLock\<close>: the first request of the transaction in the page's
  vector decides. \<open>passed\<close> holds the requests already passed, \<open>None\<close> means that the
  loop ended without finding one.
\<close>

fun acquire_existing ::
  "lock_table \<Rightarrow> PageId \<Rightarrow> LockType \<Rightarrow> TransactionId \<Rightarrow> LockRequest list \<Rightarrow> LockRequest list
     \<Rightarrow> (bool \<times> lock_table) option" where
  "acquire_existing lt p ltype t passed [] = None"
| "acquire_existing lt p ltype t passed (request # rest) =
     (if transaction_id request = t then
        (if lock_type request = SHARED \<and> ltype = EXCLUSIVE
            \<and> canGrantLock (new_LockRequest p EXCLUSIVE t) lt
         then Some (True, lt(p := passed @ request\<lparr>lock_type := EXCLUSIVE\<rparr> # rest))
         else Some (granted request, lt))
      else acquire_existing lt p ltype t (passed @ [request]) rest)"

definition acquireLock ::
  "PageId \<Rightarrow> LockType \<Rightarrow> TransactionId \<Rightarrow> lock_table \<Rightarrow> bool \<times> lock_table" where
  "acquireLock p ltype t lt =
     (case acquire_existing lt p ltype t [] (lt p) of
        Some r \<Rightarrow> r
      | None \<Rightarrow>
          (let new_request = new_LockRequest p ltype t in
           if canGrantLock new_request lt
           then (True, lt(p := lt p @ [grantLock new_request]))
           else (False, lt(p := lt p @ [new_request]))))"

section \<open>Page file (the fstream of buffer\_pool.h)\<close>

text \<open>
  The file is a sequence of whole pages, page \<open>p\<close> at byte offset \<open>p * PAGE_SIZE\<close>.
  \<open>failbit\<close> is the stream's error state: a read past the end of the file sets it, it
  stays set until \<open>clear()\<close>, and \<open>seekg\<close>/\<open>read\<close> on a failed stream do nothing.
\<close>

record fstream =
  file_pages :: "byte list list"
  failbit :: bool

definition readPageFromDisk :: "PageId \<Rightarrow> fstream \<Rightarrow> byte list \<times> fstream" where
  "readPageFromDisk pid f =
     (if failbit f \<or> length (file_pages f) \<le> unat pid
      then (replicate PAGE_SIZE 0, f\<lparr>failbit := True\<rparr>)
      else (file_pages f ! unat pid, f))"

definition writePageToDisk :: "PageId \<Rightarrow> byte list \<Rightarrow> fstream \<Rightarrow> fstream" where
  "writePageToDisk pid d f =
     (let current = file_pages f;
          extended = (if length current \<le> unat pid
                      then current @ replicate (unat pid + 1 - length current) (replicate PAGE_SIZE 0)
                      else current)
      in \<lparr>file_pages = extended[unat pid := take PAGE_SIZE d], failbit = False\<rparr>)"

section \<open>Buffer pool (buffer\_pool.h)\<close>

text \<open>
  \<open>PageHeader\<close> (types.h) is declared here, before \<open>BufferFrame\<close>, so that \<open>page_id\<close>
  alone is the frame's field; the header's is \<open>PageHeader.page_id\<close>.
\<close>

record PageHeader =
  page_id :: PageId
  free_space :: "32 word"
  tuple_count :: "32 word"
  next_page :: "32 word"

record BufferFrame =
  page_id :: PageId
  is_dirty :: bool
  is_pinned :: bool
  data :: "byte list"

definition new_BufferFrame :: BufferFrame where
  "new_BufferFrame = \<lparr>page_id = 0, is_dirty = False, is_pinned = False, data = replicate PAGE_SIZE 0\<rparr>"

definition clear :: "BufferFrame \<Rightarrow> BufferFrame" where
  "clear fr = \<lparr>page_id = 0, is_dirty = False, is_pinned = False,
               data = replicate (length (data fr)) 0\<rparr>"

record BufferPool =
  frames :: "BufferFrame list"
  page_table :: "PageId \<rightharpoonup> BufferFrameId"
  lru_list :: "BufferFrameId list"
  db_file :: fstream
  page_hits :: nat
  page_misses :: nat

text \<open>
  The constructor, with the number of frames as a parameter; the source builds
  \<open>BUFFER_POOL_SIZE\<close> frames and pushes their ids to the back of \<open>lru_list\<close> in order.
\<close>

definition BufferPool_sized :: "nat \<Rightarrow> fstream \<Rightarrow> BufferPool" where
  "BufferPool_sized n f =
     \<lparr>frames = replicate n new_BufferFrame, page_table = Map.empty, lru_list = [0..<n],
      db_file = f, page_hits = 0, page_misses = 0\<rparr>"

definition new_BufferPool :: "fstream \<Rightarrow> BufferPool" where
  "new_BufferPool f = BufferPool_sized BUFFER_POOL_SIZE f"

text \<open>
  \<open>findVictim\<close> iterates \<open>lru_list\<close> from \<open>begin()\<close> and takes the first frame that is
  not pinned; \<open>first_unpinned\<close> is that loop, \<open>remove1\<close> the \<open>erase(it)\<close>.
\<close>

fun first_unpinned :: "BufferFrame list \<Rightarrow> BufferFrameId list \<Rightarrow> BufferFrameId option" where
  "first_unpinned frs [] = None"
| "first_unpinned frs (i # is) = (if \<not> is_pinned (frs ! i) then Some i else first_unpinned frs is)"

definition findVictim :: "BufferPool \<Rightarrow> (error + BufferFrameId) \<times> BufferPool" where
  "findVictim bp =
     (case first_unpinned (frames bp) (lru_list bp) of
        Some victim \<Rightarrow> (Inr victim, bp\<lparr>lru_list := remove1 victim (lru_list bp)\<rparr>)
      | None \<Rightarrow> (Inl NoUnpinnedFrames, bp))"

definition evictFrame :: "BufferFrameId \<Rightarrow> BufferPool \<Rightarrow> BufferPool" where
  "evictFrame frame_id bp =
     (let frame = frames bp ! frame_id;
          file' = (if is_dirty frame then writePageToDisk (page_id frame) (data frame) (db_file bp)
                   else db_file bp)
      in bp\<lparr>db_file := file',
            page_table := (page_table bp)(page_id frame := None),
            frames := (frames bp)[frame_id := clear frame]\<rparr>)"

definition updateLRU :: "BufferFrameId \<Rightarrow> BufferPool \<Rightarrow> BufferPool" where
  "updateLRU frame_id bp = bp\<lparr>lru_list := frame_id # removeAll frame_id (lru_list bp)\<rparr>"

definition getPage :: "PageId \<Rightarrow> BufferPool \<Rightarrow> (error + BufferFrameId) \<times> BufferPool" where
  "getPage pid bp =
     (case page_table bp pid of
        Some frame_id \<Rightarrow>
          (let bp1 = bp\<lparr>frames := (frames bp)[frame_id := (frames bp ! frame_id)\<lparr>is_pinned := True\<rparr>]\<rparr>;
               bp2 = updateLRU frame_id bp1
           in (Inr frame_id, bp2\<lparr>page_hits := page_hits bp2 + 1\<rparr>))
      | None \<Rightarrow>
          (case findVictim (bp\<lparr>page_misses := page_misses bp + 1\<rparr>) of
             (Inl e, bp1) \<Rightarrow> (Inl e, bp1)
           | (Inr victim_frame, bp1) \<Rightarrow>
               (let bp2 = (if page_id (frames bp1 ! victim_frame) \<noteq> 0
                           then evictFrame victim_frame bp1 else bp1);
                    (d, file') = readPageFromDisk pid (db_file bp2);
                    frame = (frames bp2 ! victim_frame)
                              \<lparr>page_id := pid, is_pinned := True, is_dirty := False, data := d\<rparr>
                in (Inr victim_frame,
                    bp2\<lparr>frames := (frames bp2)[victim_frame := frame],
                        db_file := file',
                        page_table := (page_table bp2)(pid \<mapsto> victim_frame),
                        lru_list := victim_frame # lru_list bp2\<rparr>))))"

definition releasePage :: "PageId \<Rightarrow> BufferPool \<Rightarrow> BufferPool" where
  "releasePage pid bp =
     (case page_table bp pid of
        Some frame_id \<Rightarrow>
          bp\<lparr>frames := (frames bp)[frame_id := (frames bp ! frame_id)\<lparr>is_pinned := False\<rparr>]\<rparr>
      | None \<Rightarrow> bp)"

definition markDirty :: "PageId \<Rightarrow> BufferPool \<Rightarrow> BufferPool" where
  "markDirty pid bp =
     (case page_table bp pid of
        Some frame_id \<Rightarrow>
          bp\<lparr>frames := (frames bp)[frame_id := (frames bp ! frame_id)\<lparr>is_dirty := True\<rparr>]\<rparr>
      | None \<Rightarrow> bp)"

text \<open>
  The state a pool is in between calls: the page table and the frames agree, every frame
  id is in \<open>lru_list\<close>, and page 0 (the id of an empty frame) is never resident.
\<close>

definition pool_inv :: "BufferPool \<Rightarrow> bool" where
  "pool_inv bp \<longleftrightarrow>
     (\<forall>p f. page_table bp p = Some f \<longrightarrow> f < length (frames bp) \<and> page_id (frames bp ! f) = p)
     \<and> set (lru_list bp) = {..<length (frames bp)}
     \<and> page_table bp 0 = None"

section \<open>B-tree (b\_tree.h)\<close>

text \<open>
  A node owns its children through \<open>unique_ptr\<close>s, which can be null: a child is a
  \<open>BTreeNode option\<close>. The source's field \<open>values\<close> is \<open>vals\<close> here.
\<close>

datatype ('k, 'v) BTreeNode =
  BTreeNode (keys: "'k list") (vals: "'v list") (children: "('k, 'v) BTreeNode option list")
    (is_leaf: bool)

definition MAX_KEYS :: nat where
  "MAX_KEYS = 4"

definition createNode :: "bool \<Rightarrow> ('k, 'v) BTreeNode" where
  "createNode leaf = BTreeNode [] [] [] leaf"

definition isFull :: "('k, 'v) BTreeNode \<Rightarrow> bool" where
  "isFull node \<longleftrightarrow> MAX_KEYS \<le> length (keys node)"

text \<open>\<open>v.insert(v.begin() + i, x)\<close> on a vector.\<close>

definition insert_at :: "nat \<Rightarrow> 'a \<Rightarrow> 'a list \<Rightarrow> 'a list" where
  "insert_at i x xs = take i xs @ x # drop i xs"

text \<open>
  \<open>splitChild\<close> takes the child out of the parent with
  \<open>auto child = move(parent->children[child_index])\<close>: the slot in the parent is null from
  then on, and the local \<open>child\<close> (the left half after the \<open>resize\<close>) is destroyed when the
  function returns. \<open>right_half\<close> is \<open>new_node\<close>.
\<close>

definition right_half :: "('k, 'v) BTreeNode \<Rightarrow> ('k, 'v) BTreeNode" where
  "right_half child =
     (let mid = length (keys child) div 2 in
      BTreeNode (drop (mid + 1) (keys child))
                (map ((!) (vals child)) [mid + 1..<length (keys child)])
                (if is_leaf child then [] else drop (mid + 1) (children child))
                (is_leaf child))"

definition splitChild :: "('k, 'v) BTreeNode \<Rightarrow> nat \<Rightarrow> error + ('k, 'v) BTreeNode" where
  "splitChild parent child_index =
     (case children parent ! child_index of
        None \<Rightarrow> Inl NullDeref
      | Some child \<Rightarrow>
          (let mid = length (keys child) div 2;
               middle_key = keys child ! mid;
               middle_value = vals child ! mid
           in Inr (BTreeNode
                     (insert_at child_index middle_key (keys parent))
                     (insert_at child_index middle_value (vals parent))
                     (insert_at (child_index + 1) (Some (right_half child))
                        ((children parent)[child_index := None]))
                     (is_leaf parent))))"

text \<open>
  The loop \<open>while (i >= 0 && key < node->keys[i]) i--; i++\<close> of \<open>insertNonFull\<close>, started
  at \<open>i = keys.size() - 1\<close>: the argument is \<open>i + 1\<close>, the result the insertion index.
\<close>

fun scan_down :: "'k::linorder \<Rightarrow> 'k list \<Rightarrow> nat \<Rightarrow> nat" where
  "scan_down key ks 0 = 0"
| "scan_down key ks (Suc i) = (if key < ks ! i then scan_down key ks i else Suc i)"

text \<open>The number of nodes below a node: the measure for the recursion over children.\<close>

fun node_count :: "('k, 'v) BTreeNode \<Rightarrow> nat" where
  "node_count (BTreeNode ks vs cs l) =
     Suc (sum_list (map (\<lambda>c. case c of None \<Rightarrow> 0 | Some n \<Rightarrow> node_count n) cs))"

lemma sum_list_drop_le: "sum_list (map f (drop n xs)) \<le> sum_list (map (f :: 'a \<Rightarrow> nat) xs)"
proof -
  have "sum_list (map f xs) = sum_list (map f (take n xs @ drop n xs))" by simp
  also have "\<dots> = sum_list (map f (take n xs)) + sum_list (map f (drop n xs))"
    by (simp only: map_append sum_list_append)
  finally show ?thesis by simp
qed

lemma node_count_right_half: "node_count (right_half child) \<le> node_count child"
  by (cases child) (simp add: right_half_def Let_def sum_list_drop_le)

lemma node_count_child_less:
  assumes "i < length (children node)" "children node ! i = Some child"
  shows "node_count child < node_count node"
proof (cases node)
  case (BTreeNode ks vs cs l)
  let ?f = "\<lambda>c. case c of None \<Rightarrow> 0 | Some n \<Rightarrow> node_count n"
  have mem: "x \<in> set xs \<Longrightarrow> g x \<le> sum_list (map g xs)" for x :: 'c and xs and g :: "'c \<Rightarrow> nat"
    by (induction xs) auto
  from assms BTreeNode have "Some child \<in> set cs" by (auto simp: set_conv_nth intro: exI [of _ i])
  then have "?f (Some child) \<le> sum_list (map ?f cs)" by (rule mem)
  with BTreeNode show ?thesis by simp
qed

function insertNonFull ::
  "('k::linorder, 'v) BTreeNode \<Rightarrow> 'k \<Rightarrow> 'v \<Rightarrow> error + ('k, 'v) BTreeNode" where
  "insertNonFull node key val =
     (let i = scan_down key (keys node) (length (keys node)) in
      if is_leaf node then
        Inr (BTreeNode (insert_at i key (keys node)) (insert_at i val (vals node))
               (children node) True)
      else if length (children node) \<le> i then Inl OutOfBounds
      else
        (case children node ! i of
           None \<Rightarrow> Inl NullDeref
         | Some child \<Rightarrow>
             if isFull child then
               (case splitChild node i of
                  Inl e \<Rightarrow> Inl e
                | Inr node' \<Rightarrow>
                    if keys node' ! i < key then
                      (case insertNonFull (right_half child) key val of
                         Inl e \<Rightarrow> Inl e
                       | Inr c \<Rightarrow>
                           Inr (BTreeNode (keys node') (vals node')
                                  ((children node')[i + 1 := Some c]) (is_leaf node')))
                    else Inl NullDeref)
             else
               (case insertNonFull child key val of
                  Inl e \<Rightarrow> Inl e
                | Inr c \<Rightarrow>
                    Inr (BTreeNode (keys node) (vals node) ((children node)[i := Some c])
                           (is_leaf node)))))"
  by pat_completeness auto
termination
proof (relation "measure (\<lambda>(node, key, val). node_count node)", goal_cases)
  case 1
  show ?case by simp
next
  case (2 node key val i child node')
  then have "i < length (children node)" "children node ! i = Some child" by simp_all
  then have "node_count child < node_count node" by (rule node_count_child_less)
  with node_count_right_half [of child] show ?case by simp
next
  case (3 node key val i child)
  then have "i < length (children node)" "children node ! i = Some child" by simp_all
  then have "node_count child < node_count node" by (rule node_count_child_less)
  then show ?case by simp
qed

text \<open>
  \<open>while (i < node->keys.size() && key > node->keys[i]) i++\<close> of \<open>searchRecursive\<close>.
\<close>

fun scan_up :: "'k::linorder \<Rightarrow> 'k list \<Rightarrow> nat" where
  "scan_up key [] = 0"
| "scan_up key (k # ks) = (if k < key then Suc (scan_up key ks) else 0)"

function searchRecursive :: "('k::linorder, 'v) BTreeNode option \<Rightarrow> 'k \<Rightarrow> error + 'v option" where
  "searchRecursive None key = Inr None"
| "searchRecursive (Some node) key =
     (let i = scan_up key (keys node) in
      if i < length (keys node) \<and> key = keys node ! i then Inr (Some (vals node ! i))
      else if is_leaf node then Inr None
      else if length (children node) \<le> i then Inl OutOfBounds
      else searchRecursive (children node ! i) key)"
  by pat_completeness auto
termination
proof (relation "measure (\<lambda>(node, key). case node of None \<Rightarrow> 0 | Some n \<Rightarrow> node_count n)",
    goal_cases)
  case 1
  show ?case by simp
next
  case (2 node key i)
  show ?case
  proof (cases "children node ! i")
    case None
    then show ?thesis by (cases node) simp
  next
    case (Some child)
    from 2 have "i < length (children node)" by simp
    then have "node_count child < node_count node" using Some by (rule node_count_child_less)
    with Some show ?thesis by simp
  qed
qed

text \<open>The tree is its root pointer, which the constructor sets to an empty leaf.\<close>

record ('k, 'v) BTree =
  root :: "('k, 'v) BTreeNode"

definition new_BTree :: "('k, 'v) BTree" where
  "new_BTree = \<lparr>root = createNode True\<rparr>"

definition BTree_insert :: "'k::linorder \<Rightarrow> 'v \<Rightarrow> ('k, 'v) BTree \<Rightarrow> error + ('k, 'v) BTree" where
  "BTree_insert key val t =
     (if isFull (root t) then
        (case splitChild (BTreeNode [] [] [Some (root t)] False) 0 of
           Inl e \<Rightarrow> Inl e
         | Inr new_root \<Rightarrow>
             (case insertNonFull new_root key val of
                Inl e \<Rightarrow> Inl e
              | Inr r \<Rightarrow> Inr (t\<lparr>root := r\<rparr>)))
      else
        (case insertNonFull (root t) key val of
           Inl e \<Rightarrow> Inl e
         | Inr r \<Rightarrow> Inr (t\<lparr>root := r\<rparr>)))"

definition BTree_search :: "'k::linorder \<Rightarrow> ('k, 'v) BTree \<Rightarrow> error + 'v option" where
  "BTree_search key t = searchRecursive (Some (root t)) key"

text \<open>Inserting a list of key/value pairs in order, stopping at the first failure.\<close>

fun BTree_insert_all :: "('k::linorder \<times> 'v) list \<Rightarrow> ('k, 'v) BTree \<Rightarrow> error + ('k, 'v) BTree" where
  "BTree_insert_all [] t = Inr t"
| "BTree_insert_all ((k, v) # kvs) t =
     (case BTree_insert k v t of Inl e \<Rightarrow> Inl e | Inr t' \<Rightarrow> BTree_insert_all kvs t')"

section \<open>Values, tuples and schemas (types.h)\<close>

datatype DataType = INTEGER | VARCHAR | BOOLEAN | DOUBLE

text \<open>
  \<open>Value\<close> is \<open>variant<int32_t, string, bool, double>\<close>. A double is carried as its 64 bits:
  the storage engine only copies it.
\<close>

datatype Value = VInt "32 word" | VString string | VBool bool | VDouble "64 word"

text \<open>The fields \<open>id\<close> and \<open>values\<close> of \<open>Tuple\<close> are \<open>t_id\<close> and \<open>t_values\<close>.\<close>

record Tuple =
  t_id :: TupleId
  t_values :: "Value list"

text \<open>The fields \<open>name\<close>, \<open>type\<close> and \<open>size\<close> of \<open>Column\<close>.\<close>

record Column =
  column_name :: string
  column_type :: DataType
  column_size :: nat

record Schema =
  columns :: "Column list"

record TupleHeader =
  tuple_size :: "32 word"
  next_tuple_offset :: "32 word"
  tuple_id :: TupleId

section \<open>Bytes in memory\<close>

text \<open>
  \<open>memcpy\<close> of an integer on a little-endian host: the least significant byte first.
\<close>

definition le32 :: "32 word \<Rightarrow> byte list" where
  "le32 w = [ucast w, ucast (drop_bit 8 w), ucast (drop_bit 16 w), ucast (drop_bit 24 w)]"

definition le64 :: "64 word \<Rightarrow> byte list" where
  "le64 w = [ucast w, ucast (drop_bit 8 w), ucast (drop_bit 16 w), ucast (drop_bit 24 w),
             ucast (drop_bit 32 w), ucast (drop_bit 40 w), ucast (drop_bit 48 w),
             ucast (drop_bit 56 w)]"

fun of_le :: "byte list \<Rightarrow> 'a::len word" where
  "of_le [] = 0"
| "of_le (b # bs) = ucast b OR push_bit 8 (of_le bs)"

definition byte_of_char :: "char \<Rightarrow> byte" where
  "byte_of_char c = of_nat (of_char c)"

definition char_of_byte :: "byte \<Rightarrow> char" where
  "char_of_byte b = char_of (unat b)"

text \<open>
  \<open>memcpy\<close> out of and into a \<open>vector<uint8_t>\<close>. A copy that leaves the vector is
  undefined behaviour in the source and \<open>OutOfBounds\<close> here.
\<close>

definition peek :: "byte list \<Rightarrow> nat \<Rightarrow> nat \<Rightarrow> error + byte list" where
  "peek buffer offset n =
     (if offset + n \<le> length buffer then Inr (take n (drop offset buffer)) else Inl OutOfBounds)"

definition poke :: "byte list \<Rightarrow> nat \<Rightarrow> byte list \<Rightarrow> error + byte list" where
  "poke buffer offset bs =
     (if offset + length bs \<le> length buffer
      then Inr (take offset buffer @ bs @ drop (offset + length bs) buffer)
      else Inl OutOfBounds)"

definition PageHeader_bytes :: "PageHeader \<Rightarrow> byte list" where
  "PageHeader_bytes h =
     le32 (PageHeader.page_id h) @ le32 (free_space h) @ le32 (tuple_count h) @ le32 (next_page h)"

definition PageHeader_of_bytes :: "byte list \<Rightarrow> PageHeader" where
  "PageHeader_of_bytes bs =
     \<lparr>PageHeader.page_id = of_le (take 4 bs), free_space = of_le (take 4 (drop 4 bs)),
      tuple_count = of_le (take 4 (drop 8 bs)), next_page = of_le (take 4 (drop 12 bs))\<rparr>"

definition TupleHeader_bytes :: "TupleHeader \<Rightarrow> byte list" where
  "TupleHeader_bytes h = le32 (tuple_size h) @ le32 (next_tuple_offset h) @ le64 (tuple_id h)"

definition TupleHeader_of_bytes :: "byte list \<Rightarrow> TupleHeader" where
  "TupleHeader_of_bytes bs =
     \<lparr>tuple_size = of_le (take 4 bs), next_tuple_offset = of_le (take 4 (drop 4 bs)),
      tuple_id = of_le (take 8 (drop 8 bs))\<rparr>"

definition sizeof_PageHeader :: nat where
  "sizeof_PageHeader = 16"

definition sizeof_TupleHeader :: nat where
  "sizeof_TupleHeader = 16"

definition read_PageHeader :: "byte list \<Rightarrow> error + PageHeader" where
  "read_PageHeader buffer =
     (case peek buffer 0 sizeof_PageHeader of
        Inl e \<Rightarrow> Inl e
      | Inr bs \<Rightarrow> Inr (PageHeader_of_bytes bs))"

definition read_TupleHeader :: "byte list \<Rightarrow> nat \<Rightarrow> error + TupleHeader" where
  "read_TupleHeader buffer offset =
     (case peek buffer offset sizeof_TupleHeader of
        Inl e \<Rightarrow> Inl e
      | Inr bs \<Rightarrow> Inr (TupleHeader_of_bytes bs))"

section \<open>Tuple codec (storage\_engine.cpp)\<close>

text \<open>
  The loop of \<open>getTupleSize\<close> runs over \<open>i < tuple.values.size() && i < schema.columns.size()\<close>
  and is driven by the column types; \<open>get<string>\<close> throws on a value that is not a string.
\<close>

fun tuple_size_loop :: "Column list \<Rightarrow> Value list \<Rightarrow> nat \<Rightarrow> error + nat" where
  "tuple_size_loop (c # cs) (v # vs) sz =
     (case column_type c of
        INTEGER \<Rightarrow> tuple_size_loop cs vs (sz + 4)
      | DOUBLE \<Rightarrow> tuple_size_loop cs vs (sz + 8)
      | BOOLEAN \<Rightarrow> tuple_size_loop cs vs (sz + 1)
      | VARCHAR \<Rightarrow>
          (case v of
             VString str \<Rightarrow> tuple_size_loop cs vs (sz + 4 + length str)
           | _ \<Rightarrow> Inl BadVariantAccess))"
| "tuple_size_loop cs vs sz = Inr sz"

definition getTupleSize :: "Schema \<Rightarrow> Tuple \<Rightarrow> error + nat" where
  "getTupleSize schema tuple = tuple_size_loop (columns schema) (t_values tuple) sizeof_TupleHeader"

text \<open>
  The loop of \<open>serializeTuple\<close> is driven by the values' own types. The string length is
  cast to \<open>uint32_t\<close>, and that many bytes are copied.
\<close>

fun write_values :: "Value list \<Rightarrow> byte list \<Rightarrow> nat \<Rightarrow> error + byte list \<times> nat" where
  "write_values [] buffer current_offset = Inr (buffer, current_offset)"
| "write_values (value # rest) buffer current_offset =
     (case value of
        VInt v \<Rightarrow>
          (case poke buffer current_offset (le32 v) of
             Inl e \<Rightarrow> Inl e
           | Inr b \<Rightarrow> write_values rest b (current_offset + 4))
      | VDouble v \<Rightarrow>
          (case poke buffer current_offset (le64 v) of
             Inl e \<Rightarrow> Inl e
           | Inr b \<Rightarrow> write_values rest b (current_offset + 8))
      | VBool v \<Rightarrow>
          (case poke buffer current_offset [if v then 1 else 0] of
             Inl e \<Rightarrow> Inl e
           | Inr b \<Rightarrow> write_values rest b (current_offset + 1))
      | VString v \<Rightarrow>
          (let len = (of_nat (length v) :: 32 word) in
           case poke buffer current_offset (le32 len) of
             Inl e \<Rightarrow> Inl e
           | Inr b \<Rightarrow>
               (case poke b (current_offset + 4) (map byte_of_char (take (unat len) v)) of
                  Inl e \<Rightarrow> Inl e
                | Inr b' \<Rightarrow> write_values rest b' (current_offset + 4 + unat len))))"

definition serializeTuple :: "Schema \<Rightarrow> Tuple \<Rightarrow> byte list \<Rightarrow> nat \<Rightarrow> error + byte list \<times> nat" where
  "serializeTuple schema tuple buffer offset =
     (case getTupleSize schema tuple of
        Inl e \<Rightarrow> Inl e
      | Inr sz \<Rightarrow>
          (let header = \<lparr>tuple_size = of_nat sz, next_tuple_offset = 0, tuple_id = t_id tuple\<rparr> in
           case poke buffer offset (TupleHeader_bytes header) of
             Inl e \<Rightarrow> Inl e
           | Inr b \<Rightarrow>
               (case write_values (t_values tuple) b (offset + sizeof_TupleHeader) of
                  Inl e \<Rightarrow> Inl e
                | Inr (b', current_offset) \<Rightarrow> Inr (b', current_offset - offset))))"

fun read_columns :: "Column list \<Rightarrow> byte list \<Rightarrow> nat \<Rightarrow> error + Value list" where
  "read_columns [] buffer current_offset = Inr []"
| "read_columns (column # rest) buffer current_offset =
     (case column_type column of
        INTEGER \<Rightarrow>
          (case peek buffer current_offset 4 of
             Inl e \<Rightarrow> Inl e
           | Inr bs \<Rightarrow>
               (case read_columns rest buffer (current_offset + 4) of
                  Inl e \<Rightarrow> Inl e
                | Inr vs \<Rightarrow> Inr (VInt (of_le bs) # vs)))
      | DOUBLE \<Rightarrow>
          (case peek buffer current_offset 8 of
             Inl e \<Rightarrow> Inl e
           | Inr bs \<Rightarrow>
               (case read_columns rest buffer (current_offset + 8) of
                  Inl e \<Rightarrow> Inl e
                | Inr vs \<Rightarrow> Inr (VDouble (of_le bs) # vs)))
      | BOOLEAN \<Rightarrow>
          (case peek buffer current_offset 1 of
             Inl e \<Rightarrow> Inl e
           | Inr bs \<Rightarrow>
               (case read_columns rest buffer (current_offset + 1) of
                  Inl e \<Rightarrow> Inl e
                | Inr vs \<Rightarrow> Inr (VBool (bs \<noteq> [0]) # vs)))
      | VARCHAR \<Rightarrow>
          (case peek buffer current_offset 4 of
             Inl e \<Rightarrow> Inl e
           | Inr bs \<Rightarrow>
               (let len = unat (of_le bs :: 32 word) in
                case peek buffer (current_offset + 4) len of
                  Inl e \<Rightarrow> Inl e
                | Inr str \<Rightarrow>
                    (case read_columns rest buffer (current_offset + 4 + len) of
                       Inl e \<Rightarrow> Inl e
                     | Inr vs \<Rightarrow> Inr (VString (map char_of_byte str) # vs)))))"

definition deserializeTuple :: "Schema \<Rightarrow> byte list \<Rightarrow> nat \<Rightarrow> error + Tuple" where
  "deserializeTuple schema buffer offset =
     (case read_TupleHeader buffer offset of
        Inl e \<Rightarrow> Inl e
      | Inr header \<Rightarrow>
          (case read_columns (columns schema) buffer (offset + sizeof_TupleHeader) of
             Inl e \<Rightarrow> Inl e
           | Inr vs \<Rightarrow> Inr \<lparr>t_id = tuple_id header, t_values = vs\<rparr>))"

section \<open>Table (storage\_engine.h, storage\_engine.cpp)\<close>

text \<open>
  \<open>indexes\<close> is an \<open>unordered_map\<close> from column names to B-trees; it is kept as an
  association list and iterated in list order.
\<close>

record Table =
  table_name :: string
  schema :: Schema
  first_page_id :: PageId
  next_page_id :: PageId
  next_tuple_id :: TupleId
  buffer_pool :: BufferPool
  indexes :: "(string \<times> (string, TupleId) BTree) list"

text \<open>Writing through the \<open>BufferFrame*\<close> that \<open>getPage\<close> returned.\<close>

definition set_frame_data :: "BufferFrameId \<Rightarrow> byte list \<Rightarrow> BufferPool \<Rightarrow> BufferPool" where
  "set_frame_data frame_id d bp = bp\<lparr>frames := (frames bp)[frame_id := (frames bp ! frame_id)\<lparr>data := d\<rparr>]\<rparr>"

definition frame_data :: "BufferFrameId \<Rightarrow> BufferPool \<Rightarrow> byte list" where
  "frame_data frame_id bp = data (frames bp ! frame_id)"

definition allocateNewPage :: "Table \<Rightarrow> (error + PageId) \<times> Table" where
  "allocateNewPage t =
     (let new_page_id = next_page_id t;
          t1 = t\<lparr>next_page_id := next_page_id t + 1\<rparr>
      in case getPage new_page_id (buffer_pool t1) of
           (Inl e, bp) \<Rightarrow> (Inl e, t1\<lparr>buffer_pool := bp\<rparr>)
         | (Inr frame, bp) \<Rightarrow>
             (let header = \<lparr>PageHeader.page_id = new_page_id,
                            free_space = of_nat (PAGE_SIZE - sizeof_PageHeader),
                            tuple_count = 0, next_page = 0\<rparr>
              in case poke (frame_data frame bp) 0 (PageHeader_bytes header) of
                   Inl e \<Rightarrow> (Inl e, t1\<lparr>buffer_pool := bp\<rparr>)
                 | Inr d \<Rightarrow>
                     (Inr new_page_id,
                      t1\<lparr>buffer_pool :=
                           releasePage new_page_id (markDirty new_page_id (set_frame_data frame d bp))\<rparr>)))"

text \<open>
  The loop of \<open>insertTupleIntoPage\<close> that skips the tuples already on the page, adding up
  the \<open>tuple_size\<close> fields of their headers.
\<close>

fun skip_tuples :: "byte list \<Rightarrow> nat \<Rightarrow> nat \<Rightarrow> error + nat" where
  "skip_tuples buffer offset 0 = Inr offset"
| "skip_tuples buffer offset (Suc n) =
     (case read_TupleHeader buffer offset of
        Inl e \<Rightarrow> Inl e
      | Inr existing_tuple_header \<Rightarrow>
          skip_tuples buffer (offset + unat (tuple_size existing_tuple_header)) n)"

definition insertTupleIntoPage :: "PageId \<Rightarrow> Tuple \<Rightarrow> Table \<Rightarrow> (error + bool) \<times> Table" where
  "insertTupleIntoPage pid tuple t =
     (case getPage pid (buffer_pool t) of
        (Inl e, bp) \<Rightarrow> (Inl e, t\<lparr>buffer_pool := bp\<rparr>)
      | (Inr frame, bp) \<Rightarrow>
          (case read_PageHeader (frame_data frame bp) of
             Inl e \<Rightarrow> (Inl e, t\<lparr>buffer_pool := bp\<rparr>)
           | Inr header \<Rightarrow>
               (case getTupleSize (schema t) tuple of
                  Inl e \<Rightarrow> (Inl e, t\<lparr>buffer_pool := bp\<rparr>)
                | Inr tuple_sz \<Rightarrow>
                    if unat (free_space header) < tuple_sz
                    then (Inr False, t\<lparr>buffer_pool := releasePage pid bp\<rparr>)
                    else
                      (case skip_tuples (frame_data frame bp) sizeof_PageHeader
                              (unat (tuple_count header)) of
                         Inl e \<Rightarrow> (Inl e, t\<lparr>buffer_pool := bp\<rparr>)
                       | Inr offset \<Rightarrow>
                           (case serializeTuple (schema t) tuple (frame_data frame bp) offset of
                              Inl e \<Rightarrow> (Inl e, t\<lparr>buffer_pool := bp\<rparr>)
                            | Inr (d, written_size) \<Rightarrow>
                                (let header' = header\<lparr>tuple_count := tuple_count header + 1,
                                                      free_space := free_space header - of_nat written_size\<rparr>
                                 in case poke d 0 (PageHeader_bytes header') of
                                      Inl e \<Rightarrow> (Inl e, t\<lparr>buffer_pool := set_frame_data frame d bp\<rparr>)
                                    | Inr d' \<Rightarrow>
                                        (Inr True,
                                         t\<lparr>buffer_pool :=
                                              releasePage pid
                                                (markDirty pid (set_frame_data frame d' bp))\<rparr>)))))))"

text \<open>The loop of \<open>readTuplesFromPage\<close> over \<open>header.tuple_count\<close> tuples.\<close>

fun read_tuples :: "Schema \<Rightarrow> byte list \<Rightarrow> nat \<Rightarrow> nat \<Rightarrow> error + Tuple list" where
  "read_tuples sch buffer offset 0 = Inr []"
| "read_tuples sch buffer offset (Suc n) =
     (case deserializeTuple sch buffer offset of
        Inl e \<Rightarrow> Inl e
      | Inr tuple \<Rightarrow>
          (case read_TupleHeader buffer offset of
             Inl e \<Rightarrow> Inl e
           | Inr tuple_header \<Rightarrow>
               (case read_tuples sch buffer (offset + unat (tuple_size tuple_header)) n of
                  Inl e \<Rightarrow> Inl e
                | Inr tuples \<Rightarrow> Inr (tuple # tuples))))"

definition readTuplesFromPage :: "PageId \<Rightarrow> Table \<Rightarrow> (error + Tuple list) \<times> Table" where
  "readTuplesFromPage pid t =
     (case getPage pid (buffer_pool t) of
        (Inl e, bp) \<Rightarrow> (Inl e, t\<lparr>buffer_pool := bp\<rparr>)
      | (Inr frame, bp) \<Rightarrow>
          (case read_PageHeader (frame_data frame bp) of
             Inl e \<Rightarrow> (Inl e, t\<lparr>buffer_pool := bp\<rparr>)
           | Inr header \<Rightarrow>
               (case read_tuples (schema t) (frame_data frame bp) sizeof_PageHeader
                       (unat (tuple_count header)) of
                  Inl e \<Rightarrow> (Inl e, t\<lparr>buffer_pool := bp\<rparr>)
                | Inr tuples \<Rightarrow> (Inr tuples, t\<lparr>buffer_pool := releasePage pid bp\<rparr>))))"

text \<open>
  The \<open>while (current_page != 0)\<close> loop of \<open>loadExistingTableData\<close>. It releases
  \<open>current_page\<close> after the assignment \<open>current_page = page_header.next_page\<close>.
\<close>

partial_function (option) load_walk ::
  "PageId \<Rightarrow> TupleId \<Rightarrow> PageId \<Rightarrow> Table \<Rightarrow> ((error + TupleId \<times> PageId) \<times> Table) option" where
  "load_walk current_page max_tuple_id max_page_id t =
     (if current_page = 0 then Some (Inr (max_tuple_id, max_page_id), t)
      else
        (case getPage current_page (buffer_pool t) of
           (Inl e, bp) \<Rightarrow> Some (Inl e, t\<lparr>buffer_pool := bp\<rparr>)
         | (Inr page_frame, bp) \<Rightarrow>
             (case read_PageHeader (frame_data page_frame bp) of
                Inl e \<Rightarrow> Some (Inl e, t\<lparr>buffer_pool := bp\<rparr>)
              | Inr page_header \<Rightarrow>
                  (case readTuplesFromPage current_page (t\<lparr>buffer_pool := bp\<rparr>) of
                     (Inl e, t1) \<Rightarrow> Some (Inl e, t1)
                   | (Inr tuples, t1) \<Rightarrow>
                       load_walk (next_page page_header)
                         (fold (\<lambda>tuple m. max m (t_id tuple)) tuples max_tuple_id)
                         (max max_page_id current_page)
                         (t1\<lparr>buffer_pool := releasePage (next_page page_header) (buffer_pool t1)\<rparr>)))))"

declare load_walk.simps [code]

definition loadExistingTableData :: "Table \<Rightarrow> ((error + unit) \<times> Table) option" where
  "loadExistingTableData t =
     (case getPage 1 (buffer_pool t) of
        (Inl e, bp) \<Rightarrow> Some (Inl e, t\<lparr>buffer_pool := bp\<rparr>)
      | (Inr frame, bp) \<Rightarrow>
          (case read_PageHeader (frame_data frame bp) of
             Inl e \<Rightarrow> Some (Inl e, t\<lparr>buffer_pool := bp\<rparr>)
           | Inr header \<Rightarrow>
               if PageHeader.page_id header = 1 \<and> 0 < tuple_count header then
                 (case load_walk 1 0 1 (t\<lparr>buffer_pool := bp, first_page_id := 1\<rparr>) of
                    None \<Rightarrow> None
                  | Some (Inl e, t1) \<Rightarrow> Some (Inl e, t1)
                  | Some (Inr (max_tuple_id, max_page_id), t1) \<Rightarrow>
                      Some (Inr (),
                            t1\<lparr>next_page_id := max_page_id + 1, next_tuple_id := max_tuple_id + 1,
                               buffer_pool := releasePage 1 (buffer_pool t1)\<rparr>))
               else Some (Inr (), t\<lparr>buffer_pool := releasePage 1 bp\<rparr>)))"

text \<open>
  The constructor \<open>Table(name, schema, db_file_path)\<close>; the file behind the path and the
  number of frames of the table's own buffer pool are its parameters here.
\<close>

definition Table_sized :: "nat \<Rightarrow> string \<Rightarrow> Schema \<Rightarrow> fstream \<Rightarrow> ((error + unit) \<times> Table) option" where
  "Table_sized n nm sch f =
     (case loadExistingTableData
             \<lparr>table_name = nm, schema = sch, first_page_id = 0, next_page_id = 1,
              next_tuple_id = 1, buffer_pool = BufferPool_sized n f, indexes = []\<rparr> of
        None \<Rightarrow> None
      | Some (Inl e, t) \<Rightarrow> Some (Inl e, t)
      | Some (Inr u, t) \<Rightarrow>
          if first_page_id t = 0 then
            (case allocateNewPage t of
               (Inl e, t1) \<Rightarrow> Some (Inl e, t1)
             | (Inr p, t1) \<Rightarrow> Some (Inr (), t1\<lparr>first_page_id := p\<rparr>))
          else Some (Inr (), t))"

definition new_Table :: "string \<Rightarrow> Schema \<Rightarrow> fstream \<Rightarrow> ((error + unit) \<times> Table) option" where
  "new_Table nm sch f = Table_sized BUFFER_POOL_SIZE nm sch f"

subsection \<open>Index keys\<close>

text \<open>
  \<open>std::to_string\<close> on an \<open>int\<close>. A \<open>bool\<close> is promoted to \<open>int\<close>. The decimal text of a
  double is floating-point formatting, which this model leaves to its parameter \<open>d2s\<close>.
\<close>

function digits :: "nat \<Rightarrow> string" where
  "digits n = (if n < 10 then [char_of (48 + n)] else digits (n div 10) @ [char_of (48 + n mod 10)])"
  by pat_completeness auto
termination
  by (relation "measure id") auto

definition to_string_int :: "int \<Rightarrow> string" where
  "to_string_int i = (if i < 0 then CHR ''-'' # digits (nat (- i)) else digits (nat i))"

definition stringify :: "(64 word \<Rightarrow> string) \<Rightarrow> Value \<Rightarrow> string" where
  "stringify d2s v =
     (case v of
        VString s \<Rightarrow> s
      | VInt i \<Rightarrow> to_string_int (sint i)
      | VBool b \<Rightarrow> to_string_int (if b then 1 else 0)
      | VDouble d \<Rightarrow> d2s d)"

text \<open>The search for the column's position: the first column of that name, 0 when there is none.\<close>

fun find_column :: "Column list \<Rightarrow> string \<Rightarrow> nat \<Rightarrow> nat" where
  "find_column [] nm i = 0"
| "find_column (c # cs) nm i = (if column_name c = nm then i else find_column cs nm (Suc i))"

fun update_indexes ::
  "(64 word \<Rightarrow> string) \<Rightarrow> Schema \<Rightarrow> Tuple \<Rightarrow> (string \<times> (string, TupleId) BTree) list
     \<Rightarrow> error + (string \<times> (string, TupleId) BTree) list" where
  "update_indexes d2s sch new_tuple [] = Inr []"
| "update_indexes d2s sch new_tuple ((cname, index) # rest) =
     (let col_idx = find_column (columns sch) cname 0 in
      case (if col_idx < length (t_values new_tuple)
            then BTree_insert (stringify d2s (t_values new_tuple ! col_idx)) (t_id new_tuple) index
            else Inr index) of
        Inl e \<Rightarrow> Inl e
      | Inr index' \<Rightarrow>
          (case update_indexes d2s sch new_tuple rest of
             Inl e \<Rightarrow> Inl e
           | Inr rest' \<Rightarrow> Inr ((cname, index') # rest')))"

subsection \<open>insertTuple\<close>

text \<open>
  The \<open>while (current_page != 0)\<close> loop of \<open>insertTuple\<close>: \<open>Inr True\<close> when a page took the
  tuple, \<open>Inr False\<close> when the chain ended. After a page that is full it reads that page's
  header, assigns \<open>current_page = header.next_page\<close> and then calls
  \<open>releasePage(current_page)\<close>.
\<close>

partial_function (option) insert_walk ::
  "(64 word \<Rightarrow> string) \<Rightarrow> Tuple \<Rightarrow> PageId \<Rightarrow> Table \<Rightarrow> ((error + bool) \<times> Table) option" where
  "insert_walk d2s new_tuple current_page t =
     (if current_page = 0 then Some (Inr False, t)
      else
        (case insertTupleIntoPage current_page new_tuple t of
           (Inl e, t1) \<Rightarrow> Some (Inl e, t1)
         | (Inr inserted, t1) \<Rightarrow>
             if inserted then
               (case update_indexes d2s (schema t1) new_tuple (indexes t1) of
                  Inl e \<Rightarrow> Some (Inl e, t1)
                | Inr idx \<Rightarrow> Some (Inr True, t1\<lparr>indexes := idx\<rparr>))
             else
               (case getPage current_page (buffer_pool t1) of
                  (Inl e, bp) \<Rightarrow> Some (Inl e, t1\<lparr>buffer_pool := bp\<rparr>)
                | (Inr frame, bp) \<Rightarrow>
                    (case read_PageHeader (frame_data frame bp) of
                       Inl e \<Rightarrow> Some (Inl e, t1\<lparr>buffer_pool := bp\<rparr>)
                     | Inr header \<Rightarrow>
                         insert_walk d2s new_tuple (next_page header)
                           (t1\<lparr>buffer_pool := releasePage (next_page header) bp\<rparr>)))))"

declare insert_walk.simps [code]

text \<open>
  After the loop: a new page is allocated, the tuple inserted into it, and the new page
  linked by writing its id into the \<open>next_page\<close> field of the first page.
\<close>

definition link_new_page ::
  "(64 word \<Rightarrow> string) \<Rightarrow> Tuple \<Rightarrow> PageId \<Rightarrow> Table \<Rightarrow> (error + bool) \<times> Table" where
  "link_new_page d2s new_tuple new_page t3 =
     (case getPage (first_page_id t3) (buffer_pool t3) of
        (Inl e, bp) \<Rightarrow> (Inl e, t3\<lparr>buffer_pool := bp\<rparr>)
      | (Inr frame, bp) \<Rightarrow>
          (case read_PageHeader (frame_data frame bp) of
             Inl e \<Rightarrow> (Inl e, t3\<lparr>buffer_pool := bp\<rparr>)
           | Inr header \<Rightarrow>
               (case poke (frame_data frame bp) 0
                       (PageHeader_bytes (header\<lparr>next_page := new_page\<rparr>)) of
                  Inl e \<Rightarrow> (Inl e, t3\<lparr>buffer_pool := bp\<rparr>)
                | Inr d \<Rightarrow>
                    (let t4 = t3\<lparr>buffer_pool :=
                                  releasePage (first_page_id t3)
                                    (markDirty (first_page_id t3) (set_frame_data frame d bp))\<rparr>
                     in case update_indexes d2s (schema t4) new_tuple (indexes t4) of
                          Inl e \<Rightarrow> (Inl e, t4)
                        | Inr idx \<Rightarrow> (Inr True, t4\<lparr>indexes := idx\<rparr>)))))"

definition insert_new_page ::
  "(64 word \<Rightarrow> string) \<Rightarrow> Tuple \<Rightarrow> Table \<Rightarrow> (error + bool) \<times> Table" where
  "insert_new_page d2s new_tuple t1 =
     (case allocateNewPage t1 of
        (Inl e, t2) \<Rightarrow> (Inl e, t2)
      | (Inr new_page, t2) \<Rightarrow>
          (case insertTupleIntoPage new_page new_tuple t2 of
             (Inl e, t3) \<Rightarrow> (Inl e, t3)
           | (Inr inserted, t3) \<Rightarrow>
               if inserted then link_new_page d2s new_tuple new_page t3 else (Inr False, t3)))"

definition assign_id :: "Tuple \<Rightarrow> Table \<Rightarrow> Tuple \<times> Table" where
  "assign_id tuple t =
     (if t_id tuple = 0
      then (tuple\<lparr>t_id := next_tuple_id t\<rparr>, t\<lparr>next_tuple_id := next_tuple_id t + 1\<rparr>)
      else (tuple, t))"

definition insertTuple ::
  "(64 word \<Rightarrow> string) \<Rightarrow> Tuple \<Rightarrow> Table \<Rightarrow> ((error + bool) \<times> Table) option" where
  "insertTuple d2s tuple t =
     (case assign_id tuple t of
        (new_tuple, t0) \<Rightarrow>
          (case insert_walk d2s new_tuple (first_page_id t0) t0 of
             None \<Rightarrow> None
           | Some (Inl e, t1) \<Rightarrow> Some (Inl e, t1)
           | Some (Inr inserted, t1) \<Rightarrow>
               if inserted then Some (Inr True, t1)
               else Some (insert_new_page d2s new_tuple t1)))"

subsection \<open>selectAll and getTupleCount\<close>

partial_function (option) select_walk ::
  "Tuple list \<Rightarrow> PageId \<Rightarrow> Table \<Rightarrow> ((error + Tuple list) \<times> Table) option" where
  "select_walk all_tuples current_page t =
     (if current_page = 0 then Some (Inr all_tuples, t)
      else
        (case readTuplesFromPage current_page t of
           (Inl e, t1) \<Rightarrow> Some (Inl e, t1)
         | (Inr page_tuples, t1) \<Rightarrow>
             (case getPage current_page (buffer_pool t1) of
                (Inl e, bp) \<Rightarrow> Some (Inl e, t1\<lparr>buffer_pool := bp\<rparr>)
              | (Inr frame, bp) \<Rightarrow>
                  (case read_PageHeader (frame_data frame bp) of
                     Inl e \<Rightarrow> Some (Inl e, t1\<lparr>buffer_pool := bp\<rparr>)
                   | Inr header \<Rightarrow>
                       select_walk (all_tuples @ page_tuples) (next_page header)
                         (t1\<lparr>buffer_pool := releasePage current_page bp\<rparr>)))))"

declare select_walk.simps [code]

definition selectAll :: "Table \<Rightarrow> ((error + Tuple list) \<times> Table) option" where
  "selectAll t = select_walk [] (first_page_id t) t"

text \<open>
  The loop of \<open>getTupleCount\<close>: \<open>current_page = header.next_page\<close> comes before
  \<open>releasePage(current_page)\<close>.
\<close>

partial_function (option) count_walk ::
  "nat \<Rightarrow> PageId \<Rightarrow> Table \<Rightarrow> ((error + nat) \<times> Table) option" where
  "count_walk count current_page t =
     (if current_page = 0 then Some (Inr count, t)
      else
        (case getPage current_page (buffer_pool t) of
           (Inl e, bp) \<Rightarrow> Some (Inl e, t\<lparr>buffer_pool := bp\<rparr>)
         | (Inr frame, bp) \<Rightarrow>
             (case read_PageHeader (frame_data frame bp) of
                Inl e \<Rightarrow> Some (Inl e, t\<lparr>buffer_pool := bp\<rparr>)
              | Inr header \<Rightarrow>
                  count_walk (count + unat (tuple_count header)) (next_page header)
                    (t\<lparr>buffer_pool := releasePage (next_page header) bp\<rparr>))))"

declare count_walk.simps [code]

definition getTupleCount :: "Table \<Rightarrow> ((error + nat) \<times> Table) option" where
  "getTupleCount t = count_walk 0 (first_page_id t) t"

section \<open>Scenario drivers\<close>

text \<open>One access of the buffer pool scenarios: \<open>getPage\<close>, then \<open>releasePage\<close>.\<close>

definition access_page :: "PageId \<Rightarrow> BufferPool \<Rightarrow> BufferPool" where
  "access_page p bp =
     (case getPage p bp of (Inl e, bp') \<Rightarrow> bp' | (Inr f, bp') \<Rightarrow> releasePage p bp')"

text \<open>A database file that has just been created.\<close>

definition empty_file :: fstream where
  "empty_file = \<lparr>file_pages = [], failbit = False\<rparr>"

section \<open>Buffer pool: facts\<close>

lemma BufferPool_sized_4:
  "BufferPool_sized 4 f =
     \<lparr>frames = [new_BufferFrame, new_BufferFrame, new_BufferFrame, new_BufferFrame],
      page_table = Map.empty, lru_list = [0, 1, 2, 3], db_file = f, page_hits = 0,
      page_misses = 0\<rparr>"
  by (simp add: BufferPool_sized_def numeral_eq_Suc upt_rec)

lemmas pool_eval =
  access_page_def getPage_def findVictim_def releasePage_def markDirty_def new_BufferFrame_def
  readPageFromDisk_def writePageToDisk_def evictFrame_def clear_def PAGE_SIZE_def Let_def
  updateLRU_def empty_file_def

lemma first_unpinned_None:
  "first_unpinned frs is = None \<longleftrightarrow> (\<forall>i \<in> set is. is_pinned (frs ! i))"
  by (induction "is") auto

lemma first_unpinned_Some:
  "first_unpinned frs is = Some v \<Longrightarrow> v \<in> set is \<and> \<not> is_pinned (frs ! v)"
  by (induction "is") (auto split: if_splits)

lemma insert_set_remove1: "v \<in> set xs \<Longrightarrow> insert v (set (remove1 v xs)) = set xs"
  by (induction xs) auto

lemma pool_inv_sized: "pool_inv (BufferPool_sized n f)"
  by (simp add: pool_inv_def BufferPool_sized_def lessThan_atLeast0)

lemma pool_inv_releasePage: "pool_inv bp \<Longrightarrow> pool_inv (releasePage pid bp)"
  by (auto simp: pool_inv_def releasePage_def nth_list_update split: option.splits)

lemma pool_inv_markDirty: "pool_inv bp \<Longrightarrow> pool_inv (markDirty pid bp)"
  by (auto simp: pool_inv_def markDirty_def nth_list_update split: option.splits)

lemma pool_inv_getPage:
  assumes "pool_inv bp" "pid \<noteq> 0"
  shows "pool_inv (snd (getPage pid bp))"
proof (cases "page_table bp pid")
  case (Some f)
  with assms(1) have "f < length (frames bp)" by (simp add: pool_inv_def)
  with assms(1) Some show ?thesis
    by (auto simp: pool_inv_def getPage_def updateLRU_def Let_def nth_list_update)
next
  case None
  show ?thesis
  proof (cases "first_unpinned (frames bp) (lru_list bp)")
    case N: None
    with None assms(1) show ?thesis by (simp add: getPage_def findVictim_def pool_inv_def)
  next
    case (Some v)
    then have v: "v \<in> set (lru_list bp)" by (auto dest: first_unpinned_Some)
    with assms(1) have vl: "v < length (frames bp)" by (auto simp: pool_inv_def)
    have set_eq: "insert v (set (remove1 v (lru_list bp))) = set (lru_list bp)"
      using v by (rule insert_set_remove1)
    have lru: "insert v (set (remove1 v (lru_list bp))) = {..<length (frames bp)}"
      using set_eq assms(1) by (simp add: pool_inv_def)
    show ?thesis
    proof (cases "page_id (frames bp ! v) = 0")
      case True
      with None Some assms vl lru show ?thesis
        by (auto simp: pool_inv_def getPage_def findVictim_def Let_def nth_list_update
            split: prod.splits)
    next
      case False
      with None Some assms vl lru show ?thesis
        by (auto simp: pool_inv_def getPage_def findVictim_def evictFrame_def Let_def
            nth_list_update split: prod.splits)
    qed
  qed
qed

lemma getPage_hit:
  "page_table bp pid = Some f \<Longrightarrow>
   getPage pid bp =
     (Inr f, bp\<lparr>frames := (frames bp)[f := (frames bp ! f)\<lparr>is_pinned := True\<rparr>],
               lru_list := f # removeAll f (lru_list bp),
               page_hits := page_hits bp + 1\<rparr>)"
  by (simp add: getPage_def updateLRU_def Let_def)

lemma getPage_miss_fail:
  "page_table bp pid = None \<Longrightarrow> first_unpinned (frames bp) (lru_list bp) = None \<Longrightarrow>
   getPage pid bp = (Inl NoUnpinnedFrames, bp\<lparr>page_misses := page_misses bp + 1\<rparr>)"
  by (simp add: getPage_def findVictim_def)

text \<open>The pool after a miss that found the victim \<open>v\<close>.\<close>

definition loaded :: "PageId \<Rightarrow> BufferFrameId \<Rightarrow> BufferPool \<Rightarrow> BufferPool" where
  "loaded pid v bp =
     (let bp1 = bp\<lparr>page_misses := page_misses bp + 1, lru_list := remove1 v (lru_list bp)\<rparr>;
          bp2 = (if page_id (frames bp1 ! v) \<noteq> 0 then evictFrame v bp1 else bp1);
          r = readPageFromDisk pid (db_file bp2)
      in bp2\<lparr>frames := (frames bp2)[v := (frames bp2 ! v)
                 \<lparr>page_id := pid, is_pinned := True, is_dirty := False, data := fst r\<rparr>],
              db_file := snd r,
              page_table := (page_table bp2)(pid \<mapsto> v),
              lru_list := v # lru_list bp2\<rparr>)"

lemma getPage_miss_ok:
  "page_table bp pid = None \<Longrightarrow> first_unpinned (frames bp) (lru_list bp) = Some v \<Longrightarrow>
   getPage pid bp = (Inr v, loaded pid v bp)"
  by (simp add: getPage_def findVictim_def loaded_def Let_def split: prod.splits)

lemma loaded_facts:
  assumes "v < length (frames bp)"
  shows "page_table (loaded pid v bp) pid = Some v"
    and "length (frames (loaded pid v bp)) = length (frames bp)"
    and "frames (loaded pid v bp) ! v =
          \<lparr>page_id = pid, is_dirty = False, is_pinned = True,
           data = fst (readPageFromDisk pid
                   (db_file (if page_id (frames bp ! v) \<noteq> 0 then evictFrame v bp else bp)))\<rparr>"
    and "lru_list (loaded pid v bp) = v # remove1 v (lru_list bp)"
  using assms by (simp_all add: loaded_def Let_def evictFrame_def clear_def)

text \<open>
  C2 (the code departs from the claim). A pool of four frames, the accesses 1, 2, 3, 4, 1, 5,
  each page released after its access. \<open>findVictim\<close> walks \<open>lru_list\<close> from its front, which
  is where \<open>getPage\<close> puts the frame it has just used: every access takes frame 0 and evicts
  the page released before it. All six accesses are misses, there is no hit, and at the end
  only page 5 is resident, in frame 0; pages 1 and 2 are not.
\<close>

theorem C2_victim_is_most_recent:
  "(let bp = fold access_page [1, 2, 3, 4, 1, 5] (BufferPool_sized 4 empty_file)
    in (page_hits bp, page_misses bp, map page_id (frames bp), page_table bp 1, page_table bp 2,
        page_table bp 5))
   = (0, 6, [5, 0, 0, 0], None, None, Some 0)
   \<and> page_table (fold access_page [1, 2] (BufferPool_sized 4 empty_file)) 1 = None"
  by (simp add: BufferPool_sized_4 pool_eval)

text \<open>
  In a pool whose page table and LRU list are consistent, \<open>getPage\<close> raises exactly when
  the page is not resident and every frame is pinned. On a miss with an unpinned frame it
  returns a frame that the page table maps the page to, that carries the page's id, is
  pinned and clean, and holds what \<open>readPageFromDisk\<close> delivers for the page (after the
  write-back of the evicted page). What \<open>readPageFromDisk\<close> delivers need not be the page.
\<close>

lemma getPage_fails_iff_all_pinned:
  assumes "pool_inv bp"
  shows "((\<exists>e bp'. getPage pid bp = (Inl e, bp')) \<longleftrightarrow>
           (page_table bp pid = None \<and> (\<forall>f < length (frames bp). is_pinned (frames bp ! f))))
       \<and> (page_table bp pid = None \<and> (\<exists>f < length (frames bp). \<not> is_pinned (frames bp ! f)) \<longrightarrow>
           (\<exists>f bp'. getPage pid bp = (Inr f, bp') \<and> page_table bp' pid = Some f
              \<and> f < length (frames bp')
              \<and> page_id (frames bp' ! f) = pid \<and> is_pinned (frames bp' ! f)
              \<and> \<not> is_dirty (frames bp' ! f)
              \<and> data (frames bp' ! f) =
                  fst (readPageFromDisk pid
                        (db_file (if page_id (frames bp ! f) \<noteq> 0 then evictFrame f bp else bp)))))"
proof -
  from assms have lru: "set (lru_list bp) = {..<length (frames bp)}" by (simp add: pool_inv_def)
  have none: "first_unpinned (frames bp) (lru_list bp) = None \<longleftrightarrow>
      (\<forall>f < length (frames bp). is_pinned (frames bp ! f))"
    using lru by (auto simp: first_unpinned_None)
  show ?thesis
  proof (cases "page_table bp pid")
    case (Some f)
    then show ?thesis by (simp add: getPage_hit)
  next
    case None
    show ?thesis
    proof (cases "first_unpinned (frames bp) (lru_list bp)")
      case N: None
      with None none show ?thesis by (auto simp: getPage_miss_fail)
    next
      case (Some v)
      with none have ex: "\<exists>f < length (frames bp). \<not> is_pinned (frames bp ! f)" by auto
      from Some lru have v: "v < length (frames bp)" by (auto dest: first_unpinned_Some)
      have "\<exists>f bp'. getPage pid bp = (Inr f, bp') \<and> page_table bp' pid = Some f
              \<and> f < length (frames bp')
              \<and> page_id (frames bp' ! f) = pid \<and> is_pinned (frames bp' ! f)
              \<and> \<not> is_dirty (frames bp' ! f)
              \<and> data (frames bp' ! f) =
                  fst (readPageFromDisk pid
                        (db_file (if page_id (frames bp ! f) \<noteq> 0 then evictFrame f bp else bp)))"
        using v getPage_miss_ok [OF None Some] loaded_facts(1-3) [OF v, of pid]
        by (intro exI [of _ v] exI [of _ "loaded pid v bp"]) simp
      moreover from this have "\<not> (\<exists>e bp'. getPage pid bp = (Inl e, bp'))" by auto
      ultimately show ?thesis using ex by blast
    qed
  qed
qed

lemma getPage_fails_iff_all_pinned_example:
  "pool_inv (BufferPool_sized 4 empty_file)
   \<and> page_table (BufferPool_sized 4 empty_file) 1 = None
   \<and> (\<exists>f < length (frames (BufferPool_sized 4 empty_file)).
         \<not> is_pinned (frames (BufferPool_sized 4 empty_file) ! f))
   \<and> (\<exists>f bp'. getPage 1 (BufferPool_sized 4 empty_file) = (Inr f, bp') \<and> page_table bp' 1 = Some f)
   \<and> \<not> (\<exists>e bp'. getPage 1 (BufferPool_sized 4 empty_file) = (Inl e, bp'))"
proof -
  let ?bp = "BufferPool_sized 4 empty_file"
  have inv: "pool_inv ?bp" by (rule pool_inv_sized)
  have miss: "page_table ?bp 1 = None" by (simp add: BufferPool_sized_def)
  have free: "\<exists>f < length (frames ?bp). \<not> is_pinned (frames ?bp ! f)"
    by (rule exI [of _ 0]) (simp add: BufferPool_sized_def new_BufferFrame_def)
  from getPage_fails_iff_all_pinned [OF inv, of 1] miss free
  have "(\<exists>f bp'. getPage 1 ?bp = (Inr f, bp') \<and> page_table bp' 1 = Some f)
      \<and> \<not> (\<exists>e bp'. getPage 1 ?bp = (Inl e, bp'))"
    by (metis Inl_Inr_False prod.inject)
  with inv miss free show ?thesis by blast
qed

text \<open>
  C9, as the claim states it, fails: \<open>is_pinned\<close> is one flag. In a pool of four frames two
  callers get page 1 and one of them releases it; the frame is then unpinned, and the next
  miss (page 2) takes that frame and evicts page 1.
\<close>

theorem C9_counterexample:
  "(let bp0 = BufferPool_sized 4 empty_file;
        (r1, bp1) = getPage 1 bp0;
        (r2, bp2) = getPage 1 bp1;
        bp3 = releasePage 1 bp2;
        (r3, bp4) = getPage 2 bp3
    in (r1, r2, is_pinned (frames bp3 ! 0), r3, page_table bp4 1, page_id (frames bp4 ! 0)))
   = (Inr 0, Inr 0, False, Inr 0, None, 2)"
  by (simp add: BufferPool_sized_4 pool_eval)

text \<open>
  C9, amended. Pinning is a flag, not a count. When two callers have each obtained the same
  page through \<open>getPage\<close> and one of them has called \<open>releasePage\<close>, the frame holding the
  page is not pinned any more, and it can be selected as a victim although the second
  caller has not released it: \<open>findVictim\<close> selects it when every other frame is pinned. A
  frame is never selected while its flag is set.
\<close>

theorem C9_pin_is_a_flag:
  assumes "pool_inv bp"
    and "getPage pid bp = (Inr f, bp1)"
    and "getPage pid bp1 = (Inr f', bp2)"
  shows "f' = f
       \<and> \<not> is_pinned (frames (releasePage pid bp2) ! f)
       \<and> ((\<forall>g < length (frames bp2). g \<noteq> f \<longrightarrow> is_pinned (frames bp2 ! g)) \<longrightarrow>
            fst (findVictim (releasePage pid bp2)) = Inr f)
       \<and> (\<forall>b v b'. findVictim b = (Inr v, b') \<longrightarrow> \<not> is_pinned (frames b ! v))"
proof -
  have pt1: "page_table bp1 pid = Some f \<and> f < length (frames bp1)"
  proof (cases "page_table bp pid")
    case (Some g)
    with assms(1,2) show ?thesis
      by (auto simp: getPage_hit pool_inv_def)
  next
    case None
    show ?thesis
    proof (cases "first_unpinned (frames bp) (lru_list bp)")
      case N: None
      with None assms(2) show ?thesis by (simp add: getPage_miss_fail)
    next
      case (Some v)
      then have "v \<in> set (lru_list bp)" by (auto dest: first_unpinned_Some)
      with assms(1) have v: "v < length (frames bp)" by (auto simp: pool_inv_def)
      from getPage_miss_ok [OF None Some] assms(2) have "f = v" "bp1 = loaded pid v bp" by simp_all
      with loaded_facts(1,2) [OF v, of pid] v show ?thesis by simp
    qed
  qed
  then have hit: "getPage pid bp1 = (Inr f, bp1\<lparr>frames := (frames bp1)[f := (frames bp1 ! f)\<lparr>is_pinned := True\<rparr>],
               lru_list := f # removeAll f (lru_list bp1),
               page_hits := page_hits bp1 + 1\<rparr>)" by (simp add: getPage_hit)
  with assms(3) have f': "f' = f" and bp2: "bp2 = bp1\<lparr>frames := (frames bp1)[f := (frames bp1 ! f)\<lparr>is_pinned := True\<rparr>],
               lru_list := f # removeAll f (lru_list bp1),
               page_hits := page_hits bp1 + 1\<rparr>" by auto
  have unp: "\<not> is_pinned (frames (releasePage pid bp2) ! f)"
    using pt1 by (simp add: bp2 releasePage_def)
  have "lru_list (releasePage pid bp2) = f # removeAll f (lru_list bp1)"
    using pt1 by (simp add: bp2 releasePage_def)
  with unp have "fst (findVictim (releasePage pid bp2)) = Inr f"
    by (simp add: findVictim_def)
  moreover have "\<forall>b v b'. findVictim b = (Inr v, b') \<longrightarrow> \<not> is_pinned (frames b ! v)"
    by (auto simp: findVictim_def split: option.splits dest: first_unpinned_Some)
  ultimately show ?thesis using f' unp by simp
qed

text \<open>
  An instance: the pages 2, 3 and 4 are held in three of the four frames, and page 1 is
  obtained twice and released once.
\<close>

theorem C9_witness:
  "(let bp = snd (getPage 4 (snd (getPage 3 (snd (getPage 2 (BufferPool_sized 4 empty_file))))));
        bp1 = snd (getPage 1 bp); bp2 = snd (getPage 1 bp1)
    in pool_inv bp \<and> getPage 1 bp = (Inr 3, bp1) \<and> getPage 1 bp1 = (Inr 3, bp2)
       \<and> map is_pinned (frames bp2) = [True, True, True, True]
       \<and> \<not> is_pinned (frames (releasePage 1 bp2) ! 3)
       \<and> fst (findVictim (releasePage 1 bp2)) = Inr 3)"
proof -
  let ?bp = "snd (getPage 4 (snd (getPage 3 (snd (getPage 2 (BufferPool_sized 4 empty_file))))))"
  let ?bp1 = "snd (getPage 1 ?bp)"
  let ?bp2 = "snd (getPage 1 ?bp1)"
  have inv: "pool_inv ?bp"
    by (intro pool_inv_getPage pool_inv_sized) simp_all
  have g1: "getPage 1 ?bp = (Inr 3, ?bp1)" by (simp add: BufferPool_sized_4 pool_eval)
  have g2: "getPage 1 ?bp1 = (Inr 3, ?bp2)" by (simp add: BufferPool_sized_4 pool_eval)
  have pins: "map is_pinned (frames ?bp2) = [True, True, True, True]"
    by (simp add: BufferPool_sized_4 pool_eval)
  then have "list_all (\<lambda>b. b) (map is_pinned (frames ?bp2))" by simp
  then have others: "\<forall>g < length (frames ?bp2). g \<noteq> 3 \<longrightarrow> is_pinned (frames ?bp2 ! g)"
    by (simp add: list_all_length)
  from C9_pin_is_a_flag [OF inv g1 g2] others inv g1 g2 pins show ?thesis
    by (simp add: Let_def)
qed

section \<open>Lock manager: facts\<close>

text \<open>
  C8 (the code departs from the claim). Transaction 7 holds the only lock on page 1, a granted
  SHARED lock, and asks for EXCLUSIVE. \<open>canGrantLock\<close> counts the transaction's own granted
  lock as a conflict, so the upgrade branch is not taken; \<open>acquireLock\<close> returns
  \<open>request.granted\<close>, which is true, and the lock table is unchanged: the lock is still SHARED.
\<close>

theorem C8_upgrade_keeps_shared:
  "(let lt = (\<lambda>p. [])(1 := [\<lparr>LockRequest.page_id = 1, lock_type = SHARED, transaction_id = 7,
                               granted = True\<rparr>])
    in acquireLock 1 EXCLUSIVE 7 lt = (True, lt)
       \<and> map lock_type (snd (acquireLock 1 EXCLUSIVE 7 lt) 1) = [SHARED])"
  by (simp add: acquireLock_def canGrantLock_def new_LockRequest_def Let_def)

section \<open>B-tree: facts\<close>

lemma scan_down_le: "scan_down key ks n \<le> n"
  by (induction n) auto

text \<open>On a sorted key list the downward scan stops behind the last key that is at most \<open>key\<close>.\<close>

lemma scan_down_sorted:
  assumes "sorted ks" "n \<le> length ks"
  shows "(\<forall>j < scan_down key ks n. ks ! j \<le> key) \<and> (\<forall>j. scan_down key ks n \<le> j \<and> j < n \<longrightarrow> key < ks ! j)"
  using assms(2)
proof (induction n)
  case 0
  then show ?case by simp
next
  case (Suc n)
  show ?case
  proof (cases "key < ks ! n")
    case True
    with Suc show ?thesis by (auto simp: less_Suc_eq)
  next
    case False
    have "ks ! j \<le> key" if "j < Suc n" for j
    proof -
      from that Suc.prems assms(1) have "ks ! j \<le> ks ! n"
        by (auto simp: sorted_iff_nth_mono)
      with False show ?thesis by simp
    qed
    with False show ?thesis by auto
  qed
qed

lemma map_of_insert_at:
  assumes "\<forall>p \<in> set (drop i zs). fst p \<noteq> k"
  shows "map_of (insert_at i (k, v) zs) k' =
         (case map_of zs k' of Some x \<Rightarrow> Some x | None \<Rightarrow> if k' = k then Some v else None)"
proof -
  have zs: "zs = take i zs @ drop i zs" by simp
  have none: "map_of (drop i zs) k = None"
    using assms by (force simp: map_of_eq_None_iff image_iff)
  have "map_of zs k' = (map_of (drop i zs) ++ map_of (take i zs)) k'"
    by (subst zs) (simp only: map_of_append)
  moreover have "map_of (insert_at i (k, v) zs) k' = (map_of ((k, v) # drop i zs) ++ map_of (take i zs)) k'"
    by (simp only: insert_at_def map_of_append)
  ultimately show ?thesis using none
    by (auto simp: map_add_def split: option.splits)
qed

lemma zip_insert_at:
  "length ks = length vs \<Longrightarrow> zip (insert_at i k ks) (insert_at i v vs) = insert_at i (k, v) (zip ks vs)"
  by (simp add: insert_at_def take_zip drop_zip zip_append)

lemma sorted_insert_at:
  assumes "sorted ks" "i \<le> length ks" "\<forall>j < i. ks ! j \<le> key" "\<forall>j. i \<le> j \<and> j < length ks \<longrightarrow> key \<le> ks ! j"
  shows "sorted (insert_at i key ks)"
proof -
  have "sorted (take i ks)" "sorted (drop i ks)" using assms(1) by (simp_all add: sorted_wrt_take sorted_wrt_drop)
  moreover have "\<forall>x \<in> set (take i ks). x \<le> key"
    using assms(2,3) by (auto simp: in_set_conv_nth)
  moreover have "\<forall>x \<in> set (drop i ks). key \<le> x"
    using assms(2,4) by (auto simp: in_set_conv_nth)
  ultimately show ?thesis
    by (fastforce simp: insert_at_def sorted_append intro: order_trans)
qed

text \<open>A root that is still the one leaf, holding the pairs \<open>kvs\<close> inserted so far.\<close>

definition leaf_of :: "('k::linorder \<times> 'v) list \<Rightarrow> ('k, 'v) BTree \<Rightarrow> bool" where
  "leaf_of kvs t \<longleftrightarrow>
     is_leaf (root t) \<and> sorted (keys (root t)) \<and> length (keys (root t)) = length kvs
     \<and> length (vals (root t)) = length kvs
     \<and> (\<forall>k. map_of (zip (keys (root t)) (vals (root t))) k = map_of kvs k)"

lemma leaf_of_insert:
  assumes "leaf_of kvs t" "length kvs < MAX_KEYS"
  shows "\<exists>t'. BTree_insert k v t = Inr t' \<and> leaf_of (kvs @ [(k, v)]) t'"
proof -
  obtain ks vs cs where r: "root t = BTreeNode ks vs cs True"
    using assms(1) by (cases "root t") (auto simp: leaf_of_def)
  from assms(1) r have s: "sorted ks" and lk: "length ks = length kvs" and lv: "length vs = length kvs"
    and m: "\<And>k. map_of (zip ks vs) k = map_of kvs k"
    by (simp_all add: leaf_of_def)
  let ?i = "scan_down k ks (length ks)"
  have i: "?i \<le> length ks" by (rule scan_down_le)
  from scan_down_sorted [OF s le_refl, of k]
  have lo: "\<forall>j < ?i. ks ! j \<le> k" and hi: "\<forall>j. ?i \<le> j \<and> j < length ks \<longrightarrow> k < ks ! j" by simp_all
  have notfull: "\<not> isFull (root t)" using assms(2) lk r by (simp add: isFull_def)
  let ?t' = "t\<lparr>root := BTreeNode (insert_at ?i k ks) (insert_at ?i v vs) cs True\<rparr>"
  have ins: "BTree_insert k v t = Inr ?t'"
    using notfull r by (simp add: BTree_insert_def Let_def)
  have srt: "sorted (insert_at ?i k ks)"
    using s i lo hi by (intro sorted_insert_at) (auto intro: less_imp_le)
  have "\<forall>p \<in> set (drop ?i (zip ks vs)). fst p \<noteq> k"
  proof
    fix p assume "p \<in> set (drop ?i (zip ks vs))"
    then obtain j where j: "j < length (drop ?i (zip ks vs))" "p = drop ?i (zip ks vs) ! j"
      by (auto simp: in_set_conv_nth)
    with lk lv have "fst p = ks ! (?i + j)" "?i + j < length ks" by simp_all
    moreover from hi \<open>?i + j < length ks\<close> have "k < ks ! (?i + j)" by simp
    ultimately show "fst p \<noteq> k" by simp
  qed
  then have "map_of (zip (insert_at ?i k ks) (insert_at ?i v vs)) k' = map_of (kvs @ [(k, v)]) k'" for k'
    using lk lv by (simp add: zip_insert_at map_of_insert_at m map_add_def split: option.splits)
  with srt lk lv i have "leaf_of (kvs @ [(k, v)]) ?t'"
    by (simp add: leaf_of_def insert_at_def)
  with ins show ?thesis by blast
qed

lemma leaf_of_insert_all:
  assumes "leaf_of pre t" "length pre + length kvs \<le> MAX_KEYS"
  shows "\<exists>t'. BTree_insert_all kvs t = Inr t' \<and> leaf_of (pre @ kvs) t'"
  using assms
proof (induction kvs arbitrary: pre t)
  case Nil
  then show ?case by simp
next
  case (Cons kv kvs)
  obtain k v where kv: "kv = (k, v)" by (cases kv)
  from Cons.prems have "length pre < MAX_KEYS" by simp
  from leaf_of_insert [OF Cons.prems(1) this, of k v]
  obtain t1 where t1: "BTree_insert k v t = Inr t1" "leaf_of (pre @ [(k, v)]) t1" by blast
  from Cons.prems have "length (pre @ [(k, v)]) + length kvs \<le> MAX_KEYS" by simp
  from Cons.IH [OF t1(2) this] t1(1) kv show ?case by simp
qed

lemma search_leaf:
  assumes "sorted ks" "length vs = length ks"
  shows "searchRecursive (Some (BTreeNode ks vs cs True)) k = Inr (map_of (zip ks vs) k)"
proof -
  have "(let i = scan_up k ks in if i < length ks \<and> k = ks ! i then Some (vs ! i) else None) = map_of (zip ks vs) k"
    using assms
  proof (induction ks arbitrary: vs)
    case Nil
    then show ?case by simp
  next
    case (Cons a ks)
    then obtain b vs' where vs: "vs = b # vs'" by (cases vs) auto
    show ?case
    proof (cases "a < k")
      case True
      with Cons vs show ?thesis by (auto simp: Let_def)
    next
      case False
      with Cons.prems(1) have "\<forall>x \<in> set ks. k \<noteq> x \<or> a = k" by auto
      then have "a \<noteq> k \<Longrightarrow> map_of (zip ks vs') k = None" for vs' :: "'b list"
        by (auto simp: map_of_eq_None_iff dest!: set_zip_leftD)
      with False Cons.prems vs show ?thesis
        by (auto simp: Let_def)
    qed
  qed
  with assms show ?thesis by (auto simp: Let_def split: if_splits)
qed

text \<open>
  What \<open>splitChild\<close> does to a full root: after the keys 1 to 5 the root holds 3, its first
  child is null and the keys 1 and 2 are gone. (The facts below are about trees that have
  not split.)
\<close>

lemma splitChild_loses_left_half:
  "BTree_insert_all [(1 :: nat, 1 :: nat), (2, 2), (3, 3), (4, 4), (5, 5)] new_BTree
     = Inr \<lparr>root = BTreeNode [3] [3] [None, Some (BTreeNode [4, 5] [4, 5] [] True)] False\<rparr>"
  by (simp add: new_BTree_def createNode_def BTree_insert_def isFull_def MAX_KEYS_def
      insert_at_def splitChild_def right_half_def Let_def upt_rec)

text \<open>
  C3, as the claim states it, fails: two rows with the key 25 are inserted, with the tuple
  ids 1 and 2, and the search for 25 returns 1, the id inserted first.
\<close>

theorem C3_counterexample:
  "\<exists>t. BTree_insert_all [(''25'', 1 :: TupleId), (''25'', 2)] new_BTree = Inr t
       \<and> BTree_search ''25'' t = Inr (Some 1)"
  by (simp add: new_BTree_def createNode_def BTree_insert_def isFull_def MAX_KEYS_def BTree_search_def insert_at_def)

text \<open>
  C3, amended. For a B-tree that has not split a node (at most \<open>MAX_KEYS\<close> insertions, the
  tree is one leaf): after any sequence of insertions, also one in which several rows share
  a key, every insertion succeeds and \<open>search(key)\<close> returns the tuple id of the row inserted
  first with that key (\<open>map_of\<close> finds the first pair), and nothing for a key never inserted.
\<close>

theorem C3_search_first_inserted:
  assumes "length kvs \<le> MAX_KEYS"
  shows "\<exists>t. BTree_insert_all kvs new_BTree = Inr t \<and> BTree_search k t = Inr (map_of kvs k)"
proof -
  have "leaf_of [] (new_BTree :: ('a, 'b) BTree)" by (simp add: leaf_of_def new_BTree_def createNode_def)
  from leaf_of_insert_all [OF this, of kvs] assms
  obtain t where t: "BTree_insert_all kvs new_BTree = Inr t" "leaf_of kvs t" by auto
  obtain ks vs cs l where r: "root t = BTreeNode ks vs cs l" by (cases "root t")
  with t(2) have "BTree_search k t = Inr (map_of kvs k)"
    by (simp add: BTree_search_def leaf_of_def search_leaf del: searchRecursive.simps)
  with t(1) show ?thesis by blast
qed

theorem C3_witness:
  "length [(''25'', 1 :: TupleId), (''25'', 2), (''30'', 3)] \<le> MAX_KEYS
   \<and> (\<exists>t. BTree_insert_all [(''25'', 1 :: TupleId), (''25'', 2), (''30'', 3)] new_BTree = Inr t
          \<and> BTree_search ''25'' t = Inr (Some 1))"
proof -
  have len: "length [(''25'', 1 :: TupleId), (''25'', 2), (''30'', 3)] \<le> MAX_KEYS"
    by (simp add: MAX_KEYS_def)
  from C3_search_first_inserted [OF len, of "''25''"] len show ?thesis by simp
qed

section \<open>Tuple codec: facts\<close>

text \<open>
  A value conforms to a column type when it is the variant alternative of that type; for
  VARCHAR, a string whose length the 4-byte length prefix of the format can hold.
\<close>

fun conforms_to :: "DataType \<Rightarrow> Value \<Rightarrow> bool" where
  "conforms_to INTEGER (VInt i) = True"
| "conforms_to VARCHAR (VString s) = (length s < 2 ^ 32)"
| "conforms_to BOOLEAN (VBool b) = True"
| "conforms_to DOUBLE (VDouble d) = True"
| "conforms_to ty v = False"

definition conforms :: "Schema \<Rightarrow> Tuple \<Rightarrow> bool" where
  "conforms sch tuple = list_all2 (\<lambda>c v. conforms_to (column_type c) v) (columns sch) (t_values tuple)"

text \<open>The bytes a value takes behind the tuple header.\<close>

fun value_size :: "Value \<Rightarrow> nat" where
  "value_size (VInt i) = 4"
| "value_size (VString s) = 4 + length s"
| "value_size (VBool b) = 1"
| "value_size (VDouble d) = 8"

lemma byte_step:
  fixes x :: "'a::len word"
  shows "ucast (ucast x :: byte) OR push_bit 8 (take_bit n (drop_bit 8 x)) = take_bit (n + 8) x"
proof (rule bit_word_eqI)
  fix m
  assume "m < LENGTH('a)"
  then show "bit (ucast (ucast x :: byte) OR push_bit 8 (take_bit n (drop_bit 8 x))) m = bit (take_bit (n + 8) x) m"
    by (cases "m < 8") (auto simp: bit_simps)
qed

lemma of_le_bytes:
  fixes w :: "'a::len word"
  shows "(of_le (map (\<lambda>i. ucast (drop_bit (8 * i) w)) [k..<k + n]) :: 'a word) = take_bit (8 * n) (drop_bit (8 * k) w)"
proof (induction n arbitrary: k)
  case 0
  show ?case by simp
next
  case (Suc n)
  have "[k..<k + Suc n] = k # [Suc k..<Suc k + n]" by (simp add: upt_conv_Cons)
  then have "(of_le (map (\<lambda>i. ucast (drop_bit (8 * i) w)) [k..<k + Suc n]) :: 'a word)
      = ucast (ucast (drop_bit (8 * k) w) :: byte) OR push_bit 8 (take_bit (8 * n) (drop_bit (8 * Suc k) w))"
    by (simp only: list.map of_le.simps Suc.IH [of "Suc k"])
  also have "drop_bit (8 * Suc k) w = drop_bit 8 (drop_bit (8 * k) w)"
    by (simp add: drop_bit_drop_bit add.commute)
  also have "ucast (ucast (drop_bit (8 * k) w) :: byte) OR push_bit 8 (take_bit (8 * n) (drop_bit 8 (drop_bit (8 * k) w)))
      = take_bit (8 * n + 8) (drop_bit (8 * k) w)"
    by (rule byte_step)
  finally show ?case by (simp add: add.commute)
qed

lemma of_le_le32: "of_le (le32 w) = w"
proof -
  have "le32 w = map (\<lambda>i. ucast (drop_bit (8 * i) w)) [0..<0 + 4]"
    by (simp add: le32_def upt_rec)
  then show ?thesis by (simp only: of_le_bytes) (simp add: take_bit_word_eq_self)
qed

lemma of_le_le64: "of_le (le64 w) = w"
proof -
  have "le64 w = map (\<lambda>i. ucast (drop_bit (8 * i) w)) [0..<0 + 8]"
    by (simp add: le64_def upt_rec)
  then show ?thesis by (simp only: of_le_bytes) (simp add: take_bit_word_eq_self)
qed

lemma char_of_byte_of_char: "char_of_byte (byte_of_char c) = c"
  by (simp add: char_of_byte_def byte_of_char_def unat_of_nat)

lemma length_le32 [simp]: "length (le32 w) = 4"
  by (simp add: le32_def)

lemma length_le64 [simp]: "length (le64 w) = 8"
  by (simp add: le64_def)

lemma map_char_of_byte_of_char: "map (char_of_byte \<circ> byte_of_char) s = s"
  by (induction s) (simp_all add: char_of_byte_of_char)

lemma tuple_size_loop_conforms:
  "list_all2 (\<lambda>c v. conforms_to (column_type c) v) cs vs \<Longrightarrow>
   tuple_size_loop cs vs sz = Inr (sz + sum_list (map value_size vs))"
proof (induction cs vs arbitrary: sz rule: list_all2_induct)
  case Nil
  show ?case by simp
next
  case (Cons c cs v vs)
  from Cons.hyps(1) Cons.IH show ?case
    by (cases "column_type c"; cases v) simp_all
qed

lemma poke_in_range:
  assumes "offset + length bs \<le> length b"
  shows "\<exists>b'. poke b offset bs = Inr b' \<and> length b' = length b \<and> take offset b' = take offset b
           \<and> peek b' offset (length bs) = Inr bs
           \<and> drop (offset + length bs) b' = drop (offset + length bs) b"
  using assms by (simp add: poke_def peek_def)

text \<open>What lies below \<open>m\<close> in a buffer is read the same in any buffer that agrees up to \<open>m\<close>.\<close>

lemma peek_agree:
  assumes "take m b' = take m b" "length b' = length b" "offset + n \<le> m"
  shows "peek b' offset n = peek b offset n"
proof -
  have "take n (drop offset b') = take n (drop offset (take m b'))"
    using assms(3) by (simp add: drop_take)
  also have "\<dots> = take n (drop offset (take m b))" by (simp add: assms(1))
  also have "\<dots> = take n (drop offset b)" using assms(3) by (simp add: drop_take)
  finally show ?thesis using assms(2) by (simp add: peek_def)
qed

lemma take_agree:
  assumes "take m b' = take m b" "k \<le> m"
  shows "take k b' = take k b"
proof -
  have "take k b' = take k (take m b')" using assms(2) by (simp add: min_def)
  also have "\<dots> = take k (take m b)" by (simp add: assms(1))
  finally show ?thesis using assms(2) by (simp add: min_def)
qed

lemma write_then_read:
  assumes "list_all2 (\<lambda>c v. conforms_to (column_type c) v) cs vs"
    and "cur + sum_list (map value_size vs) \<le> length b"
  shows "\<exists>b'. write_values vs b cur = Inr (b', cur + sum_list (map value_size vs))
           \<and> length b' = length b \<and> take cur b' = take cur b
           \<and> read_columns cs b' cur = Inr vs"
  using assms
proof (induction cs vs arbitrary: b cur rule: list_all2_induct)
  case Nil
  show ?case by simp
next
  case (Cons c cs v vs)
  let ?rest = "sum_list (map value_size vs)"
  have step: "\<exists>b'. write_values vs b1 (cur + n) = Inr (b', cur + n + ?rest)
           \<and> length b' = length b \<and> take cur b' = take cur b
           \<and> peek b' cur n = Inr bs
           \<and> read_columns cs b' (cur + n) = Inr vs"
    if b1: "length b1 = length b" "take cur b1 = take cur b" "peek b1 cur n = Inr bs"
      and n: "cur + n + ?rest \<le> length b" for b1 n bs
  proof -
    from n b1(1) have "cur + n + ?rest \<le> length b1" by simp
    from Cons.IH [OF this] obtain b' where b':
      "write_values vs b1 (cur + n) = Inr (b', cur + n + ?rest)" "length b' = length b1"
      "take (cur + n) b' = take (cur + n) b1" "read_columns cs b' (cur + n) = Inr vs"
      by blast
    have "peek b' cur n = peek b1 cur n" by (rule peek_agree [OF b'(3) b'(2)]) simp
    moreover have "take cur b' = take cur b1" by (rule take_agree [OF b'(3)]) simp
    ultimately show ?thesis using b' b1 by auto
  qed
  show ?case
  proof (cases v)
    case (VInt i)
    with Cons.hyps(1) have ty: "column_type c = INTEGER" by (cases "column_type c") simp_all
    from Cons.prems VInt have "cur + length (le32 i) \<le> length b" by simp
    from poke_in_range [OF this] obtain b1 where b1: "poke b cur (le32 i) = Inr b1"
      "length b1 = length b" "take cur b1 = take cur b" "peek b1 cur 4 = Inr (le32 i)" by auto
    from Cons.prems VInt have "cur + 4 + ?rest \<le> length b" by simp
    from step [OF b1(2-4) this] b1(1) VInt ty show ?thesis
      by (auto simp: of_le_le32 add.assoc)
  next
    case (VDouble d)
    with Cons.hyps(1) have ty: "column_type c = DOUBLE" by (cases "column_type c") simp_all
    from Cons.prems VDouble have "cur + length (le64 d) \<le> length b" by simp
    from poke_in_range [OF this] obtain b1 where b1: "poke b cur (le64 d) = Inr b1"
      "length b1 = length b" "take cur b1 = take cur b" "peek b1 cur 8 = Inr (le64 d)" by auto
    from Cons.prems VDouble have "cur + 8 + ?rest \<le> length b" by simp
    from step [OF b1(2-4) this] b1(1) VDouble ty show ?thesis
      by (auto simp: of_le_le64 add.assoc)
  next
    case (VBool x)
    with Cons.hyps(1) have ty: "column_type c = BOOLEAN" by (cases "column_type c") simp_all
    from Cons.prems VBool have "cur + length [if x then 1 else 0 :: byte] \<le> length b" by simp
    from poke_in_range [OF this] obtain b1 where b1: "poke b cur [if x then 1 else 0] = Inr b1"
      "length b1 = length b" "take cur b1 = take cur b" "peek b1 cur 1 = Inr [if x then 1 else 0]" by auto
    from Cons.prems VBool have "cur + 1 + ?rest \<le> length b" by simp
    from step [OF b1(2-4) this] b1(1) VBool ty show ?thesis
      by (auto simp: add.assoc)
  next
    case (VString str)
    with Cons.hyps(1) have ty: "column_type c = VARCHAR" and len: "length str < 2 ^ 32"
      by (cases "column_type c"; simp)+
    let ?len = "of_nat (length str) :: 32 word"
    have ulen: "unat ?len = length str" using len by (simp add: unat_of_nat)
    let ?bytes = "map byte_of_char str"
    from Cons.prems VString have r1: "cur + length (le32 ?len) \<le> length b" by simp
    from poke_in_range [OF this] obtain b1 where b1: "poke b cur (le32 ?len) = Inr b1"
      "length b1 = length b" "take cur b1 = take cur b" "peek b1 cur 4 = Inr (le32 ?len)" by auto
    from Cons.prems VString b1(2) have r2: "(cur + 4) + length ?bytes \<le> length b1" by simp
    from poke_in_range [OF this] obtain b2 where b2: "poke b1 (cur + 4) ?bytes = Inr b2"
      "length b2 = length b1" "take (cur + 4) b2 = take (cur + 4) b1"
      "peek b2 (cur + 4) (length str) = Inr ?bytes" by auto
    from Cons.prems VString have "cur + 4 + length str + ?rest \<le> length b" by simp
    then have "cur + 4 + length str + ?rest \<le> length b2" using b1(2) b2(2) by simp
    from Cons.IH [OF this] obtain b' where b':
      "write_values vs b2 (cur + 4 + length str) = Inr (b', cur + 4 + length str + ?rest)"
      "length b' = length b2"
      "take (cur + 4 + length str) b' = take (cur + 4 + length str) b2"
      "read_columns cs b' (cur + 4 + length str) = Inr vs"
      by blast
    have p1: "peek b' cur 4 = Inr (le32 ?len)"
    proof -
      have "peek b' cur 4 = peek b2 cur 4" by (rule peek_agree [OF b'(3) b'(2)]) simp
      also have "\<dots> = peek b1 cur 4" by (rule peek_agree [OF b2(3) b2(2)]) simp
      finally show ?thesis using b1(4) by simp
    qed
    have p2: "peek b' (cur + 4) (length str) = Inr ?bytes"
    proof -
      have "peek b' (cur + 4) (length str) = peek b2 (cur + 4) (length str)"
        by (rule peek_agree [OF b'(3) b'(2)]) simp
      with b2(4) show ?thesis by simp
    qed
    have t: "take cur b' = take cur b"
    proof -
      have "take cur b' = take cur b2" by (rule take_agree [OF b'(3)]) simp
      also have "\<dots> = take cur b1" by (rule take_agree [OF b2(3)]) simp
      finally show ?thesis using b1(3) by simp
    qed
    from b1(1) b2(1) b' p1 p2 t ulen VString ty b1(2) b2(2) show ?thesis
      by (simp add: Let_def of_le_le32 map_char_of_byte_of_char add.assoc)
  qed
qed

lemma TupleHeader_roundtrip: "TupleHeader_of_bytes (TupleHeader_bytes h) = h"
  by (simp add: TupleHeader_of_bytes_def TupleHeader_bytes_def of_le_le32 of_le_le64)

lemma length_TupleHeader_bytes [simp]: "length (TupleHeader_bytes h) = 16"
  by (simp add: TupleHeader_bytes_def)

text \<open>
  C5. For every tuple whose values conform to the schema in number and types, \<open>getTupleSize\<close>
  returns a size, and in every buffer with that many bytes from the offset on,
  \<open>serializeTuple\<close> succeeds, reports that size as written, and \<open>deserializeTuple\<close> of the
  result at the same offset returns the tuple: the same id and the same values.
\<close>

theorem C5_codec_round_trip:
  assumes "conforms sch t"
  shows "\<exists>sz. getTupleSize sch t = Inr sz
            \<and> (offset + sz \<le> length buffer \<longrightarrow>
                 (\<exists>b. serializeTuple sch t buffer offset = Inr (b, sz)
                      \<and> length b = length buffer
                      \<and> deserializeTuple sch b offset = Inr t))"
proof -
  let ?p = "sum_list (map value_size (t_values t))"
  from assms have la: "list_all2 (\<lambda>c v. conforms_to (column_type c) v) (columns sch) (t_values t)"
    by (simp add: conforms_def)
  have sz: "getTupleSize sch t = Inr (16 + ?p)"
    by (simp add: getTupleSize_def tuple_size_loop_conforms [OF la] sizeof_TupleHeader_def)
  have "\<exists>b. serializeTuple sch t buffer offset = Inr (b, 16 + ?p) \<and> length b = length buffer
          \<and> deserializeTuple sch b offset = Inr t"
    if fits: "offset + (16 + ?p) \<le> length buffer"
  proof -
    let ?h = "\<lparr>tuple_size = of_nat (16 + ?p), next_tuple_offset = 0, tuple_id = t_id t\<rparr>"
    from fits have "offset + length (TupleHeader_bytes ?h) \<le> length buffer" by simp
    from poke_in_range [OF this] obtain b1 where b1: "poke buffer offset (TupleHeader_bytes ?h) = Inr b1"
      "length b1 = length buffer" "peek b1 offset 16 = Inr (TupleHeader_bytes ?h)" by auto
    from fits b1(2) have "(offset + 16) + ?p \<le> length b1" by simp
    from write_then_read [OF la this] obtain b' where b':
      "write_values (t_values t) b1 (offset + 16) = Inr (b', offset + 16 + ?p)"
      "length b' = length b1" "take (offset + 16) b' = take (offset + 16) b1"
      "read_columns (columns sch) b' (offset + 16) = Inr (t_values t)" by blast
    have "peek b' offset 16 = peek b1 offset 16" by (rule peek_agree [OF b'(3) b'(2)]) simp
    with b1(3) have hd: "read_TupleHeader b' offset = Inr ?h"
      by (simp add: read_TupleHeader_def sizeof_TupleHeader_def TupleHeader_roundtrip)
    have "serializeTuple sch t buffer offset = Inr (b', 16 + ?p)"
      using sz b1(1) b'(1) by (simp add: serializeTuple_def Let_def sizeof_TupleHeader_def)
    moreover have "deserializeTuple sch b' offset = Inr t"
      using hd b'(4) by (simp add: deserializeTuple_def sizeof_TupleHeader_def)
    ultimately show ?thesis using b'(2) b1(2) by simp
  qed
  with sz show ?thesis by blast
qed

theorem C5_witness:
  "(let sch = \<lparr>columns = [\<lparr>column_name = ''id'', column_type = INTEGER, column_size = 0\<rparr>,
                           \<lparr>column_name = ''name'', column_type = VARCHAR, column_size = 50\<rparr>,
                           \<lparr>column_name = ''active'', column_type = BOOLEAN, column_size = 0\<rparr>,
                           \<lparr>column_name = ''score'', column_type = DOUBLE, column_size = 0\<rparr>]\<rparr>;
        t = \<lparr>t_id = 7, t_values = [VInt 25, VString ''Alice'', VBool True, VDouble 4607182418800017408]\<rparr>
    in conforms sch t \<and> getTupleSize sch t = Inr 38 \<and> 3 + 38 \<le> length (replicate 64 (0 :: byte))
       \<and> (\<exists>b. serializeTuple sch t (replicate 64 0) 3 = Inr (b, 38)
              \<and> deserializeTuple sch b 3 = Inr t))"
proof -
  let ?sch = "\<lparr>columns = [\<lparr>column_name = ''id'', column_type = INTEGER, column_size = 0\<rparr>,
                           \<lparr>column_name = ''name'', column_type = VARCHAR, column_size = 50\<rparr>,
                           \<lparr>column_name = ''active'', column_type = BOOLEAN, column_size = 0\<rparr>,
                           \<lparr>column_name = ''score'', column_type = DOUBLE, column_size = 0\<rparr>]\<rparr>"
  let ?t = "\<lparr>t_id = 7, t_values = [VInt 25, VString ''Alice'', VBool True, VDouble 4607182418800017408]\<rparr>"
  have c: "conforms ?sch ?t" by (simp add: conforms_def)
  have g: "getTupleSize ?sch ?t = Inr 38" by (simp add: getTupleSize_def sizeof_TupleHeader_def)
  from C5_codec_round_trip [OF c, of 3 "replicate 64 0"] g
  have "\<exists>b. serializeTuple ?sch ?t (replicate 64 0) 3 = Inr (b, 38)
           \<and> deserializeTuple ?sch b 3 = Inr ?t"
    by auto
  with c g show ?thesis by (simp add: Let_def)
qed

section \<open>Table: facts\<close>

subsection \<open>The buffer pool under the table\<close>

text \<open>
  \<open>pool_ok\<close> adds to \<open>pool_inv\<close> what the table's operations rely on: a frame that
  carries a page id is the frame the page table gives for it, and every frame buffer and
  every page of the file is \<open>PAGE_SIZE\<close> bytes long.
\<close>

definition pool_ok :: "BufferPool \<Rightarrow> bool" where
  "pool_ok bp \<longleftrightarrow>
     pool_inv bp
     \<and> (\<forall>f < length (frames bp). page_id (frames bp ! f) \<noteq> 0 \<longrightarrow>
            page_table bp (page_id (frames bp ! f)) = Some f)
     \<and> (\<forall>f < length (frames bp). length (data (frames bp ! f)) = PAGE_SIZE)
     \<and> (\<forall>d \<in> set (file_pages (db_file bp)). length d = PAGE_SIZE)"

text \<open>The header at the start of a page buffer.\<close>

definition page_hdr :: "byte list \<Rightarrow> PageHeader" where
  "page_hdr d = PageHeader_of_bytes (take sizeof_PageHeader d)"

text \<open>
  Two pools show the same pages: the same page table and the same bytes in every frame.
  Pins, dirty flags, the LRU order and the counters may differ.
\<close>

definition same_pages :: "BufferPool \<Rightarrow> BufferPool \<Rightarrow> bool" where
  "same_pages bp bp' \<longleftrightarrow>
     page_table bp' = page_table bp \<and> length (frames bp') = length (frames bp)
     \<and> (\<forall>g. data (frames bp' ! g) = data (frames bp ! g))"

text \<open>Two pools agree on the pages of a set: the same frame and the same bytes for each.\<close>

definition agree :: "PageId set \<Rightarrow> BufferPool \<Rightarrow> BufferPool \<Rightarrow> bool" where
  "agree S bp bp' \<longleftrightarrow>
     (\<forall>p \<in> S. page_table bp' p = page_table bp p
        \<and> (\<forall>f. page_table bp p = Some f \<longrightarrow> data (frames bp' ! f) = data (frames bp ! f)))"

text \<open>
  The page chain from \<open>p\<close> is the list \<open>ps\<close>: every page of it is resident, each header's
  \<open>next_page\<close> is the next element, and the last one's is 0.
\<close>

fun chain :: "BufferPool \<Rightarrow> PageId \<Rightarrow> PageId list \<Rightarrow> bool" where
  "chain bp p [] \<longleftrightarrow> p = 0"
| "chain bp p (q # ps) \<longleftrightarrow>
     p = q \<and> q \<noteq> 0 \<and>
     (case page_table bp q of
        None \<Rightarrow> False
      | Some f \<Rightarrow> chain bp (next_page (page_hdr (data (frames bp ! f)))) ps)"

text \<open>What a full scan reads from the pages of a chain.\<close>

fun scan :: "Schema \<Rightarrow> BufferPool \<Rightarrow> PageId list \<Rightarrow> error + Tuple list" where
  "scan sch bp [] = Inr []"
| "scan sch bp (q # ps) =
     (case page_table bp q of
        None \<Rightarrow> Inl OutOfBounds
      | Some f \<Rightarrow>
          (case read_tuples sch (data (frames bp ! f)) sizeof_PageHeader
                  (unat (tuple_count (page_hdr (data (frames bp ! f))))) of
             Inl e \<Rightarrow> Inl e
           | Inr ts \<Rightarrow> (case scan sch bp ps of Inl e \<Rightarrow> Inl e | Inr r \<Rightarrow> Inr (ts @ r))))"

text \<open>The pages of a set are resident and pinned.\<close>

definition pinned_pages :: "PageId set \<Rightarrow> BufferPool \<Rightarrow> bool" where
  "pinned_pages S bp \<longleftrightarrow> (\<forall>p \<in> S. \<exists>f. page_table bp p = Some f \<and> is_pinned (frames bp ! f))"

lemma same_pages_refl [simp]: "same_pages bp bp"
  by (simp add: same_pages_def)

lemma same_pages_trans: "same_pages a b \<Longrightarrow> same_pages b c \<Longrightarrow> same_pages a c"
  by (simp add: same_pages_def)

lemma same_pages_agree: "same_pages bp bp' \<Longrightarrow> agree S bp bp'"
  by (simp add: same_pages_def agree_def)

lemma agree_refl [simp]: "agree S bp bp"
  by (simp add: agree_def)

lemma agree_trans: "agree S a b \<Longrightarrow> agree S b c \<Longrightarrow> agree S a c"
  by (simp add: agree_def)

lemma agree_subset: "agree S a b \<Longrightarrow> T \<subseteq> S \<Longrightarrow> agree T a b"
  by (auto simp: agree_def)

lemma chain_agree: "chain bp p ps \<Longrightarrow> agree (set ps) bp bp' \<Longrightarrow> chain bp' p ps"
proof (induction ps arbitrary: p)
  case Nil
  then show ?case by simp
next
  case (Cons q ps)
  from Cons.prems(1) obtain f where f: "page_table bp q = Some f" "p = q" "q \<noteq> 0"
    "chain bp (next_page (page_hdr (data (frames bp ! f)))) ps"
    by (auto split: option.splits)
  from Cons.prems(2) f(1) have f': "page_table bp' q = Some f"
    "data (frames bp' ! f) = data (frames bp ! f)"
    by (simp_all add: agree_def)
  from Cons.prems(2) have "agree (set ps) bp bp'" by (rule agree_subset) auto
  from Cons.IH [OF f(4) this] f f' show ?case by simp
qed

lemma scan_agree: "agree (set ps) bp bp' \<Longrightarrow> scan sch bp' ps = scan sch bp ps"
proof (induction ps)
  case Nil
  show ?case by simp
next
  case (Cons q ps)
  from Cons.prems have rest: "agree (set ps) bp bp'" by (rule agree_subset) auto
  from Cons.prems have pt: "page_table bp' q = page_table bp q" by (simp add: agree_def)
  show ?case
  proof (cases "page_table bp q")
    case None
    with pt show ?thesis by simp
  next
    case (Some f)
    with Cons.prems have "data (frames bp' ! f) = data (frames bp ! f)" by (simp add: agree_def)
    with Some pt Cons.IH [OF rest] show ?thesis by (simp cong: sum.case_cong)
  qed
qed

lemma pool_ok_inv: "pool_ok bp \<Longrightarrow> pool_inv bp"
  by (simp add: pool_ok_def)

lemma pool_ok_frame:
  "pool_ok bp \<Longrightarrow> page_table bp p = Some f \<Longrightarrow>
   f < length (frames bp) \<and> page_id (frames bp ! f) = p \<and> p \<noteq> 0
   \<and> length (data (frames bp ! f)) = PAGE_SIZE"
  by (auto simp: pool_ok_def pool_inv_def)

lemma pool_ok_inj:
  "pool_ok bp \<Longrightarrow> page_table bp p = Some f \<Longrightarrow> page_table bp q = Some f \<Longrightarrow> p = q"
  using pool_ok_frame [of bp p f] pool_ok_frame [of bp q f] by simp

lemma pool_ok_sized: "pool_ok (BufferPool_sized n empty_file)"
  by (simp add: pool_ok_def pool_inv_sized)
    (simp add: BufferPool_sized_def new_BufferFrame_def empty_file_def)

lemma read_PageHeader_page: "length d = PAGE_SIZE \<Longrightarrow> read_PageHeader d = Inr (page_hdr d)"
  by (simp add: read_PageHeader_def peek_def page_hdr_def PAGE_SIZE_def sizeof_PageHeader_def)

text \<open>A hit changes the pin of its frame, the LRU order and the hit count.\<close>

lemma getPage_resident:
  assumes "pool_ok bp" "page_table bp p = Some f"
  shows "\<exists>bp'. getPage p bp = (Inr f, bp') \<and> pool_ok bp' \<and> same_pages bp bp'
           \<and> (\<forall>g < length (frames bp). is_pinned (frames bp' ! g) = (g = f \<or> is_pinned (frames bp ! g)))"
proof -
  let ?bp' = "bp\<lparr>frames := (frames bp)[f := (frames bp ! f)\<lparr>is_pinned := True\<rparr>],
                 lru_list := f # removeAll f (lru_list bp),
                 page_hits := page_hits bp + 1\<rparr>"
  from pool_ok_frame [OF assms] have f: "f < length (frames bp)" by simp
  have g: "getPage p bp = (Inr f, ?bp')" using assms(2) by (rule getPage_hit)
  have "pool_inv ?bp'"
    using pool_inv_getPage [of bp p] assms pool_ok_frame [OF assms] g by (simp add: pool_ok_def)
  with assms(1) f have ok: "pool_ok ?bp'"
    by (auto simp: pool_ok_def nth_list_update)
  have sp: "same_pages bp ?bp'"
    using f by (simp add: same_pages_def nth_list_update)
  have "\<forall>g < length (frames bp). is_pinned (frames ?bp' ! g) = (g = f \<or> is_pinned (frames bp ! g))"
    using f by (auto simp: nth_list_update)
  with g ok sp show ?thesis by blast
qed

lemma releasePage_facts:
  assumes "pool_ok bp"
  shows "pool_ok (releasePage p bp) \<and> same_pages bp (releasePage p bp)
       \<and> (\<forall>g < length (frames bp).
             is_pinned (frames (releasePage p bp) ! g) =
               (is_pinned (frames bp ! g) \<and> page_table bp p \<noteq> Some g))"
proof (cases "page_table bp p")
  case None
  with assms show ?thesis by (simp add: releasePage_def)
next
  case (Some f)
  from pool_ok_frame [OF assms Some] have f: "f < length (frames bp)" by simp
  have "pool_inv (releasePage p bp)" using assms by (simp add: pool_ok_def pool_inv_releasePage)
  with assms f Some have "pool_ok (releasePage p bp)"
    by (auto simp: pool_ok_def releasePage_def nth_list_update)
  moreover have "same_pages bp (releasePage p bp)"
    using f Some by (simp add: same_pages_def releasePage_def nth_list_update)
  ultimately show ?thesis using f Some by (auto simp: releasePage_def nth_list_update)
qed

lemma markDirty_facts:
  assumes "pool_ok bp"
  shows "pool_ok (markDirty p bp) \<and> same_pages bp (markDirty p bp)
       \<and> (\<forall>g < length (frames bp). is_pinned (frames (markDirty p bp) ! g) = is_pinned (frames bp ! g))"
proof (cases "page_table bp p")
  case None
  with assms show ?thesis by (simp add: markDirty_def)
next
  case (Some f)
  from pool_ok_frame [OF assms Some] have f: "f < length (frames bp)" by simp
  have "pool_inv (markDirty p bp)" using assms by (simp add: pool_ok_def pool_inv_markDirty)
  with assms f Some have "pool_ok (markDirty p bp)"
    by (auto simp: pool_ok_def markDirty_def nth_list_update)
  moreover have "same_pages bp (markDirty p bp)"
    using f Some by (simp add: same_pages_def markDirty_def nth_list_update)
  ultimately show ?thesis using f Some by (auto simp: markDirty_def nth_list_update)
qed

subsection \<open>The loops, one step at a time\<close>

lemma insert_walk_0: "insert_walk d2s new_tuple 0 t = Some (Inr False, t)"
  by (simp add: insert_walk.simps)

lemma insert_walk_step:
  "cur \<noteq> 0 \<Longrightarrow> insert_walk d2s new_tuple cur t =
     (case insertTupleIntoPage cur new_tuple t of
        (Inl e, t1) \<Rightarrow> Some (Inl e, t1)
      | (Inr inserted, t1) \<Rightarrow>
          if inserted then
            (case update_indexes d2s (schema t1) new_tuple (indexes t1) of
               Inl e \<Rightarrow> Some (Inl e, t1)
             | Inr idx \<Rightarrow> Some (Inr True, t1\<lparr>indexes := idx\<rparr>))
          else
            (case getPage cur (buffer_pool t1) of
               (Inl e, bp) \<Rightarrow> Some (Inl e, t1\<lparr>buffer_pool := bp\<rparr>)
             | (Inr frame, bp) \<Rightarrow>
                 (case read_PageHeader (frame_data frame bp) of
                    Inl e \<Rightarrow> Some (Inl e, t1\<lparr>buffer_pool := bp\<rparr>)
                  | Inr header \<Rightarrow>
                      insert_walk d2s new_tuple (next_page header)
                        (t1\<lparr>buffer_pool := releasePage (next_page header) bp\<rparr>))))"
  by (subst insert_walk.simps) simp

lemma select_walk_0: "select_walk all_tuples 0 t = Some (Inr all_tuples, t)"
  by (simp add: select_walk.simps)

lemma select_walk_step:
  "cur \<noteq> 0 \<Longrightarrow> select_walk all_tuples cur t =
     (case readTuplesFromPage cur t of
        (Inl e, t1) \<Rightarrow> Some (Inl e, t1)
      | (Inr page_tuples, t1) \<Rightarrow>
          (case getPage cur (buffer_pool t1) of
             (Inl e, bp) \<Rightarrow> Some (Inl e, t1\<lparr>buffer_pool := bp\<rparr>)
           | (Inr frame, bp) \<Rightarrow>
               (case read_PageHeader (frame_data frame bp) of
                  Inl e \<Rightarrow> Some (Inl e, t1\<lparr>buffer_pool := bp\<rparr>)
                | Inr header \<Rightarrow>
                    select_walk (all_tuples @ page_tuples) (next_page header)
                      (t1\<lparr>buffer_pool := releasePage cur bp\<rparr>))))"
  by (subst select_walk.simps) simp

lemma count_walk_0: "count_walk count 0 t = Some (Inr count, t)"
  by (simp add: count_walk.simps)

lemma count_walk_step:
  "cur \<noteq> 0 \<Longrightarrow> count_walk count cur t =
     (case getPage cur (buffer_pool t) of
        (Inl e, bp) \<Rightarrow> Some (Inl e, t\<lparr>buffer_pool := bp\<rparr>)
      | (Inr frame, bp) \<Rightarrow>
          (case read_PageHeader (frame_data frame bp) of
             Inl e \<Rightarrow> Some (Inl e, t\<lparr>buffer_pool := bp\<rparr>)
           | Inr header \<Rightarrow>
               count_walk (count + unat (tuple_count header)) (next_page header)
                 (t\<lparr>buffer_pool := releasePage (next_page header) bp\<rparr>)))"
  by (subst count_walk.simps) simp

subsection \<open>A full scan along a resident chain\<close>

lemma same_pages_data:
  "same_pages bp bp' \<Longrightarrow> data (frames bp' ! f) = data (frames bp ! f)"
  by (simp add: same_pages_def)

lemma same_pages_table: "same_pages bp bp' \<Longrightarrow> page_table bp' = page_table bp"
  by (simp add: same_pages_def)

lemma readTuplesFromPage_resident:
  assumes "pool_ok (buffer_pool t)" "page_table (buffer_pool t) p = Some f"
  shows "\<exists>t'. readTuplesFromPage p t =
             (case read_tuples (schema t) (data (frames (buffer_pool t) ! f)) sizeof_PageHeader
                     (unat (tuple_count (page_hdr (data (frames (buffer_pool t) ! f))))) of
                Inl e \<Rightarrow> Inl e | Inr ts \<Rightarrow> Inr ts, t')
           \<and> pool_ok (buffer_pool t') \<and> same_pages (buffer_pool t) (buffer_pool t')
           \<and> schema t' = schema t"
proof -
  let ?bp = "buffer_pool t"
  from getPage_resident [OF assms] obtain bp1 where bp1:
    "getPage p ?bp = (Inr f, bp1)" "pool_ok bp1" "same_pages ?bp bp1" by blast
  have d: "data (frames bp1 ! f) = data (frames ?bp ! f)" using bp1(3) by (rule same_pages_data)
  from pool_ok_frame [OF assms] have len: "length (data (frames ?bp ! f)) = PAGE_SIZE" by simp
  have hdr: "read_PageHeader (frame_data f bp1) = Inr (page_hdr (data (frames ?bp ! f)))"
    using d len by (simp add: frame_data_def read_PageHeader_page)
  from releasePage_facts [OF bp1(2), of p] have rel:
    "pool_ok (releasePage p bp1)" "same_pages bp1 (releasePage p bp1)" by simp_all
  show ?thesis
  proof (cases "read_tuples (schema t) (data (frames ?bp ! f)) sizeof_PageHeader
                     (unat (tuple_count (page_hdr (data (frames ?bp ! f)))))")
    case (Inl e)
    with bp1 hdr d show ?thesis
      by (simp add: readTuplesFromPage_def frame_data_def)
  next
    case (Inr ts)
    with bp1 hdr d rel show ?thesis
      by (auto simp: readTuplesFromPage_def frame_data_def intro: same_pages_trans)
  qed
qed

lemma select_walk_chain:
  assumes "pool_ok (buffer_pool t)" "chain (buffer_pool t) p ps"
  shows "\<exists>t'. select_walk acc p t =
             Some (case scan (schema t) (buffer_pool t) ps of
                     Inl e \<Rightarrow> Inl e | Inr r \<Rightarrow> Inr (acc @ r), t')"
  using assms
proof (induction ps arbitrary: p t acc)
  case Nil
  then show ?case by (simp add: select_walk_0)
next
  case (Cons q ps)
  let ?bp = "buffer_pool t"
  from Cons.prems(2) obtain f where f: "page_table ?bp q = Some f" "p = q" "q \<noteq> 0"
    "chain ?bp (next_page (page_hdr (data (frames ?bp ! f)))) ps"
    by (auto split: option.splits)
  let ?d = "data (frames ?bp ! f)"
  let ?nxt = "next_page (page_hdr ?d)"
  from readTuplesFromPage_resident [OF Cons.prems(1) f(1)] obtain t1 where t1:
    "readTuplesFromPage q t =
       (case read_tuples (schema t) ?d sizeof_PageHeader (unat (tuple_count (page_hdr ?d))) of
          Inl e \<Rightarrow> Inl e | Inr ts \<Rightarrow> Inr ts, t1)"
    "pool_ok (buffer_pool t1)" "same_pages ?bp (buffer_pool t1)" "schema t1 = schema t"
    by blast
  show ?case
  proof (cases "read_tuples (schema t) ?d sizeof_PageHeader (unat (tuple_count (page_hdr ?d)))")
    case (Inl e)
    with t1(1) f show ?thesis by (simp add: select_walk_step)
  next
    case (Inr ts)
    have pt1: "page_table (buffer_pool t1) q = Some f"
      using t1(3) f(1) by (simp add: same_pages_def)
    from getPage_resident [OF t1(2) pt1] obtain bp2 where bp2:
      "getPage q (buffer_pool t1) = (Inr f, bp2)" "pool_ok bp2" "same_pages (buffer_pool t1) bp2"
      by blast
    have sp2: "same_pages ?bp bp2" using t1(3) bp2(3) by (rule same_pages_trans)
    have d2: "data (frames bp2 ! f) = ?d" using sp2 by (rule same_pages_data)
    from pool_ok_frame [OF Cons.prems(1) f(1)] have len: "length ?d = PAGE_SIZE" by simp
    have hdr: "read_PageHeader (frame_data f bp2) = Inr (page_hdr ?d)"
      using d2 len by (simp add: frame_data_def read_PageHeader_page)
    let ?t2 = "t1\<lparr>buffer_pool := releasePage q bp2\<rparr>"
    from releasePage_facts [OF bp2(2), of q] have rel:
      "pool_ok (releasePage q bp2)" "same_pages bp2 (releasePage q bp2)" by simp_all
    have sp3: "same_pages ?bp (buffer_pool ?t2)" using sp2 rel(2) by (auto intro: same_pages_trans)
    then have ag: "agree (set ps) ?bp (buffer_pool ?t2)" by (rule same_pages_agree)
    have ch: "chain (buffer_pool ?t2) ?nxt ps" using f(4) ag by (rule chain_agree)
    have ok: "pool_ok (buffer_pool ?t2)" using rel(1) by simp
    from Cons.IH [OF ok ch, of "acc @ ts"] obtain t' where t':
      "select_walk (acc @ ts) ?nxt ?t2 =
         Some (case scan (schema ?t2) (buffer_pool ?t2) ps of
                 Inl e \<Rightarrow> Inl e | Inr r \<Rightarrow> Inr ((acc @ ts) @ r), t')" by blast
    have sc: "scan (schema ?t2) (buffer_pool ?t2) ps = scan (schema t) ?bp ps"
      using scan_agree [OF ag] t1(4) by simp
    from t1(1) Inr f bp2(1) hdr t' sc show ?thesis
      by (simp add: select_walk_step split: sum.splits)
  qed
qed

lemma selectAll_chain:
  assumes "pool_ok (buffer_pool t)" "chain (buffer_pool t) (first_page_id t) ps"
  shows "\<exists>t'. selectAll t = Some (scan (schema t) (buffer_pool t) ps, t')"
proof -
  from select_walk_chain [OF assms, of "[]"] obtain t' where
    "selectAll t = Some (case scan (schema t) (buffer_pool t) ps of
                          Inl e \<Rightarrow> Inl e | Inr r \<Rightarrow> Inr ([] @ r), t')"
    by (auto simp: selectAll_def)
  then show ?thesis by (cases "scan (schema t) (buffer_pool t) ps") auto
qed

subsection \<open>A page that refuses the tuple\<close>

lemma same_pages_length: "same_pages bp bp' \<Longrightarrow> length (frames bp') = length (frames bp)"
  by (simp add: same_pages_def)

lemma insertTupleIntoPage_refuses:
  assumes "pool_ok (buffer_pool t)" "page_table (buffer_pool t) p = Some f"
    and "getTupleSize (schema t) new_tuple = Inr sz"
    and "unat (free_space (page_hdr (data (frames (buffer_pool t) ! f)))) < sz"
  shows "\<exists>bp'. insertTupleIntoPage p new_tuple t = (Inr False, t\<lparr>buffer_pool := bp'\<rparr>)
           \<and> pool_ok bp' \<and> same_pages (buffer_pool t) bp'
           \<and> (\<forall>g < length (frames (buffer_pool t)).
                 is_pinned (frames bp' ! g) = (is_pinned (frames (buffer_pool t) ! g) \<and> g \<noteq> f))"
proof -
  let ?bp = "buffer_pool t"
  from getPage_resident [OF assms(1,2)] obtain bp1 where bp1:
    "getPage p ?bp = (Inr f, bp1)" "pool_ok bp1" "same_pages ?bp bp1"
    "\<forall>g < length (frames ?bp). is_pinned (frames bp1 ! g) = (g = f \<or> is_pinned (frames ?bp ! g))"
    by blast
  have d: "data (frames bp1 ! f) = data (frames ?bp ! f)" using bp1(3) by (rule same_pages_data)
  from pool_ok_frame [OF assms(1,2)] have len: "length (data (frames ?bp ! f)) = PAGE_SIZE" by simp
  have hdr: "read_PageHeader (frame_data f bp1) = Inr (page_hdr (data (frames ?bp ! f)))"
    using d len by (simp add: frame_data_def read_PageHeader_page)
  have pt1: "page_table bp1 p = Some f" using bp1(3) assms(2) by (simp add: same_pages_def)
  have l1: "length (frames bp1) = length (frames ?bp)" using bp1(3) by (rule same_pages_length)
  from releasePage_facts [OF bp1(2), of p] have rel:
    "pool_ok (releasePage p bp1)" "same_pages bp1 (releasePage p bp1)"
    "\<forall>g < length (frames bp1). is_pinned (frames (releasePage p bp1) ! g) =
        (is_pinned (frames bp1 ! g) \<and> page_table bp1 p \<noteq> Some g)" by simp_all
  have "insertTupleIntoPage p new_tuple t = (Inr False, t\<lparr>buffer_pool := releasePage p bp1\<rparr>)"
    using bp1(1) hdr assms(3,4) by (simp add: insertTupleIntoPage_def)
  moreover have "same_pages ?bp (releasePage p bp1)" using bp1(3) rel(2) by (rule same_pages_trans)
  moreover have "\<forall>g < length (frames ?bp).
      is_pinned (frames (releasePage p bp1) ! g) = (is_pinned (frames ?bp ! g) \<and> g \<noteq> f)"
    using rel(3) bp1(4) pt1 l1 by auto
  ultimately show ?thesis using rel(1) by blast
qed

lemma insertTupleIntoPage_throws:
  assumes "pool_ok (buffer_pool t)" "page_table (buffer_pool t) p = Some f"
    and "getTupleSize (schema t) new_tuple = Inl e"
  shows "\<exists>bp'. insertTupleIntoPage p new_tuple t = (Inl e, t\<lparr>buffer_pool := bp'\<rparr>)
           \<and> pool_ok bp' \<and> same_pages (buffer_pool t) bp'"
proof -
  let ?bp = "buffer_pool t"
  from getPage_resident [OF assms(1,2)] obtain bp1 where bp1:
    "getPage p ?bp = (Inr f, bp1)" "pool_ok bp1" "same_pages ?bp bp1" by blast
  have d: "data (frames bp1 ! f) = data (frames ?bp ! f)" using bp1(3) by (rule same_pages_data)
  from pool_ok_frame [OF assms(1,2)] have len: "length (data (frames ?bp ! f)) = PAGE_SIZE" by simp
  have hdr: "read_PageHeader (frame_data f bp1) = Inr (page_hdr (data (frames ?bp ! f)))"
    using d len by (simp add: frame_data_def read_PageHeader_page)
  have "insertTupleIntoPage p new_tuple t = (Inl e, t\<lparr>buffer_pool := bp1\<rparr>)"
    using bp1(1) hdr assms(3) by (simp add: insertTupleIntoPage_def)
  with bp1 show ?thesis by blast
qed

text \<open>The next page of a chain is its second element, or 0: never a page of another frame.\<close>

lemma chain_next_not:
  assumes "pool_ok bp" "chain bp nxt ps" "q \<notin> set ps" "page_table bp q = Some f"
  shows "page_table bp nxt \<noteq> Some f"
proof (cases ps)
  case Nil
  with assms(2) have "nxt = 0" by simp
  with assms(1) show ?thesis by (simp add: pool_ok_def pool_inv_def)
next
  case (Cons q' ps')
  with assms(2) have "nxt = q'" by simp
  with Cons assms(3) have "nxt \<noteq> q" by auto
  with pool_ok_inj [OF assms(1) _ assms(4)] show ?thesis by auto
qed

lemma chain_next_in:
  assumes "pool_ok bp" "chain bp nxt ps" "\<forall>q \<in> set ps. page_table bp q \<noteq> Some g"
  shows "page_table bp nxt \<noteq> Some g"
proof (cases ps)
  case Nil
  with assms(2) have "nxt = 0" by simp
  with assms(1) show ?thesis by (simp add: pool_ok_def pool_inv_def)
next
  case (Cons q' ps')
  with assms(2) have "nxt = q'" by simp
  with Cons assms(3) show ?thesis by auto
qed

text \<open>
  The walk of \<open>insertTuple\<close> over a chain all of whose pages refuse the tuple: it ends
  without a page, the pages are unchanged, and every page of the chain is left pinned.
\<close>

lemma insert_walk_refused:
  assumes "pool_ok (buffer_pool t)" "chain (buffer_pool t) p ps" "distinct ps"
    and "getTupleSize (schema t) new_tuple = Inr sz"
    and "\<forall>q \<in> set ps. \<forall>f. page_table (buffer_pool t) q = Some f \<longrightarrow>
           unat (free_space (page_hdr (data (frames (buffer_pool t) ! f)))) < sz"
  shows "\<exists>bp'. insert_walk d2s new_tuple p t = Some (Inr False, t\<lparr>buffer_pool := bp'\<rparr>)
           \<and> pool_ok bp' \<and> same_pages (buffer_pool t) bp' \<and> pinned_pages (set ps) bp'
           \<and> (\<forall>g < length (frames (buffer_pool t)).
                 (\<forall>q \<in> set ps. page_table (buffer_pool t) q \<noteq> Some g) \<longrightarrow>
                 is_pinned (frames bp' ! g) = is_pinned (frames (buffer_pool t) ! g))"
  using assms
proof (induction ps arbitrary: p t)
  case Nil
  then show ?case by (auto simp: insert_walk_0 pinned_pages_def intro: exI [of _ "buffer_pool t"])
next
  case (Cons q ps)
  let ?bp = "buffer_pool t"
  from Cons.prems(2) obtain f where f: "page_table ?bp q = Some f" "p = q" "q \<noteq> 0"
    "chain ?bp (next_page (page_hdr (data (frames ?bp ! f)))) ps"
    by (auto split: option.splits)
  let ?d = "data (frames ?bp ! f)"
  let ?nxt = "next_page (page_hdr ?d)"
  from Cons.prems(5) f(1) have small: "unat (free_space (page_hdr ?d)) < sz" by simp
  from pool_ok_frame [OF Cons.prems(1) f(1)] have fl: "f < length (frames ?bp)"
    and len: "length ?d = PAGE_SIZE" by simp_all
  from insertTupleIntoPage_refuses [OF Cons.prems(1) f(1) Cons.prems(4) small] obtain bp1 where bp1:
    "insertTupleIntoPage q new_tuple t = (Inr False, t\<lparr>buffer_pool := bp1\<rparr>)" "pool_ok bp1"
    "same_pages ?bp bp1"
    "\<forall>g < length (frames ?bp). is_pinned (frames bp1 ! g) = (is_pinned (frames ?bp ! g) \<and> g \<noteq> f)"
    by blast
  have pt1: "page_table bp1 q = Some f" using bp1(3) f(1) by (simp add: same_pages_def)
  have l1: "length (frames bp1) = length (frames ?bp)" using bp1(3) by (rule same_pages_length)
  from getPage_resident [OF bp1(2) pt1] obtain bp2 where bp2:
    "getPage q bp1 = (Inr f, bp2)" "pool_ok bp2" "same_pages bp1 bp2"
    "\<forall>g < length (frames bp1). is_pinned (frames bp2 ! g) = (g = f \<or> is_pinned (frames bp1 ! g))"
    by blast
  have sp2: "same_pages ?bp bp2" using bp1(3) bp2(3) by (rule same_pages_trans)
  have l2: "length (frames bp2) = length (frames ?bp)" using sp2 by (rule same_pages_length)
  have d2: "data (frames bp2 ! f) = ?d" using sp2 by (rule same_pages_data)
  have hdr: "read_PageHeader (frame_data f bp2) = Inr (page_hdr ?d)"
    using d2 len by (simp add: frame_data_def read_PageHeader_page)
  let ?bp3 = "releasePage ?nxt bp2"
  let ?t3 = "t\<lparr>buffer_pool := ?bp3\<rparr>"
  from releasePage_facts [OF bp2(2), of ?nxt] have rel:
    "pool_ok ?bp3" "same_pages bp2 ?bp3"
    "\<forall>g < length (frames bp2). is_pinned (frames ?bp3 ! g) =
        (is_pinned (frames bp2 ! g) \<and> page_table bp2 ?nxt \<noteq> Some g)" by simp_all
  have sp3: "same_pages ?bp ?bp3" using sp2 rel(2) by (rule same_pages_trans)
  have l3: "length (frames ?bp3) = length (frames ?bp)" using sp3 by (rule same_pages_length)
  have pt3: "page_table ?bp3 = page_table ?bp" using sp3 by (rule same_pages_table)
  have pt2: "page_table bp2 = page_table ?bp" using sp2 by (rule same_pages_table)
  have ag: "agree (set ps) ?bp ?bp3" using sp3 by (rule same_pages_agree)
  have ch3: "chain (buffer_pool ?t3) ?nxt ps" using chain_agree [OF f(4) ag] by simp
  from Cons.prems(3) have dist: "distinct ps" and qn: "q \<notin> set ps" by simp_all
  have small3: "\<forall>q' \<in> set ps. \<forall>f'. page_table (buffer_pool ?t3) q' = Some f' \<longrightarrow>
           unat (free_space (page_hdr (data (frames (buffer_pool ?t3) ! f')))) < sz"
    using Cons.prems(5) pt3 same_pages_data [OF sp3] by simp
  from Cons.IH [of ?t3 ?nxt] rel(1) ch3 dist Cons.prems(4) small3 obtain bp' where bp':
    "insert_walk d2s new_tuple ?nxt ?t3 = Some (Inr False, ?t3\<lparr>buffer_pool := bp'\<rparr>)"
    "pool_ok bp'" "same_pages ?bp3 bp'" "pinned_pages (set ps) bp'"
    "\<forall>g < length (frames ?bp3). (\<forall>q' \<in> set ps. page_table ?bp3 q' \<noteq> Some g) \<longrightarrow>
        is_pinned (frames bp' ! g) = is_pinned (frames ?bp3 ! g)"
    by auto
  have walk: "insert_walk d2s new_tuple p t = Some (Inr False, t\<lparr>buffer_pool := bp'\<rparr>)"
    using f(2,3) bp1(1) bp2(1) hdr bp'(1) by (simp add: insert_walk_step)
  have sp': "same_pages ?bp bp'" using sp3 bp'(3) by (rule same_pages_trans)
  have nxt_f: "page_table ?bp ?nxt \<noteq> Some f"
    using Cons.prems(1) f(4) qn f(1) by (rule chain_next_not)
  have f_not_ps: "\<forall>q' \<in> set ps. page_table ?bp q' \<noteq> Some f"
    using pool_ok_inj [OF Cons.prems(1) _ f(1)] qn by auto
  have pin3: "is_pinned (frames ?bp3 ! f)"
    using rel(3) bp2(4) fl l1 l2 pt2 nxt_f by simp
  have pinf: "is_pinned (frames bp' ! f)"
    using bp'(5) fl l3 pt3 f_not_ps pin3 by simp
  have "page_table bp' q = Some f" using sp' f(1) by (simp add: same_pages_def)
  with pinf bp'(4) have pinned: "pinned_pages (set (q # ps)) bp'"
    by (simp add: pinned_pages_def)
  have others: "\<forall>g < length (frames ?bp). (\<forall>q' \<in> set (q # ps). page_table ?bp q' \<noteq> Some g) \<longrightarrow>
                 is_pinned (frames bp' ! g) = is_pinned (frames ?bp ! g)"
  proof (intro allI impI)
    fix g assume g: "g < length (frames ?bp)"
      and no: "\<forall>q' \<in> set (q # ps). page_table ?bp q' \<noteq> Some g"
    from no f(1) have gf: "g \<noteq> f" by auto
    from no have nops: "\<forall>q' \<in> set ps. page_table ?bp q' \<noteq> Some g" by simp
    have "page_table ?bp ?nxt \<noteq> Some g" using Cons.prems(1) f(4) nops by (rule chain_next_in)
    then have "is_pinned (frames ?bp3 ! g) = is_pinned (frames ?bp ! g)"
      using rel(3) bp2(4) bp1(4) g gf l1 l2 pt2 by simp
    moreover have "is_pinned (frames bp' ! g) = is_pinned (frames ?bp3 ! g)"
      using bp'(5) g l3 pt3 nops by simp
    ultimately show "is_pinned (frames bp' ! g) = is_pinned (frames ?bp ! g)" by simp
  qed
  from walk bp'(2) sp' pinned others show ?case by blast
qed

text \<open>
  The walk of \<open>getTupleCount\<close> over a resident chain: it adds up the \<open>tuple_count\<close> fields
  and leaves every page of the chain pinned.
\<close>

fun chain_count :: "BufferPool \<Rightarrow> PageId list \<Rightarrow> nat" where
  "chain_count bp [] = 0"
| "chain_count bp (q # ps) =
     (case page_table bp q of
        None \<Rightarrow> 0
      | Some f \<Rightarrow> unat (tuple_count (page_hdr (data (frames bp ! f))))) + chain_count bp ps"

lemma chain_count_agree: "agree (set ps) bp bp' \<Longrightarrow> chain_count bp' ps = chain_count bp ps"
proof (induction ps)
  case Nil
  show ?case by simp
next
  case (Cons q ps)
  from Cons.prems have rest: "agree (set ps) bp bp'" by (rule agree_subset) auto
  from Cons.prems have pt: "page_table bp' q = page_table bp q" by (simp add: agree_def)
  show ?case
  proof (cases "page_table bp q")
    case None
    with pt Cons.IH [OF rest] show ?thesis by simp
  next
    case (Some f)
    with Cons.prems have "data (frames bp' ! f) = data (frames bp ! f)" by (simp add: agree_def)
    with Some pt Cons.IH [OF rest] show ?thesis by simp
  qed
qed

lemma count_walk_chain:
  assumes "pool_ok (buffer_pool t)" "chain (buffer_pool t) p ps" "distinct ps"
  shows "\<exists>bp'. count_walk count p t =
             Some (Inr (count + chain_count (buffer_pool t) ps), t\<lparr>buffer_pool := bp'\<rparr>)
           \<and> pool_ok bp' \<and> same_pages (buffer_pool t) bp' \<and> pinned_pages (set ps) bp'
           \<and> (\<forall>g < length (frames (buffer_pool t)).
                 (\<forall>q \<in> set ps. page_table (buffer_pool t) q \<noteq> Some g) \<longrightarrow>
                 is_pinned (frames bp' ! g) = is_pinned (frames (buffer_pool t) ! g))"
  using assms
proof (induction ps arbitrary: p t count)
  case Nil
  then show ?case by (auto simp: count_walk_0 pinned_pages_def intro: exI [of _ "buffer_pool t"])
next
  case (Cons q ps)
  let ?bp = "buffer_pool t"
  from Cons.prems(2) obtain f where f: "page_table ?bp q = Some f" "p = q" "q \<noteq> 0"
    "chain ?bp (next_page (page_hdr (data (frames ?bp ! f)))) ps"
    by (auto split: option.splits)
  let ?d = "data (frames ?bp ! f)"
  let ?nxt = "next_page (page_hdr ?d)"
  from pool_ok_frame [OF Cons.prems(1) f(1)] have fl: "f < length (frames ?bp)"
    and len: "length ?d = PAGE_SIZE" by simp_all
  from getPage_resident [OF Cons.prems(1) f(1)] obtain bp2 where bp2:
    "getPage q ?bp = (Inr f, bp2)" "pool_ok bp2" "same_pages ?bp bp2"
    "\<forall>g < length (frames ?bp). is_pinned (frames bp2 ! g) = (g = f \<or> is_pinned (frames ?bp ! g))"
    by blast
  have l2: "length (frames bp2) = length (frames ?bp)" using bp2(3) by (rule same_pages_length)
  have d2: "data (frames bp2 ! f) = ?d" using bp2(3) by (rule same_pages_data)
  have hdr: "read_PageHeader (frame_data f bp2) = Inr (page_hdr ?d)"
    using d2 len by (simp add: frame_data_def read_PageHeader_page)
  let ?bp3 = "releasePage ?nxt bp2"
  let ?t3 = "t\<lparr>buffer_pool := ?bp3\<rparr>"
  from releasePage_facts [OF bp2(2), of ?nxt] have rel:
    "pool_ok ?bp3" "same_pages bp2 ?bp3"
    "\<forall>g < length (frames bp2). is_pinned (frames ?bp3 ! g) =
        (is_pinned (frames bp2 ! g) \<and> page_table bp2 ?nxt \<noteq> Some g)" by simp_all
  have sp3: "same_pages ?bp ?bp3" using bp2(3) rel(2) by (rule same_pages_trans)
  have l3: "length (frames ?bp3) = length (frames ?bp)" using sp3 by (rule same_pages_length)
  have pt3: "page_table ?bp3 = page_table ?bp" using sp3 by (rule same_pages_table)
  have pt2: "page_table bp2 = page_table ?bp" using bp2(3) by (rule same_pages_table)
  have ag: "agree (set ps) ?bp ?bp3" using sp3 by (rule same_pages_agree)
  have ch3: "chain (buffer_pool ?t3) ?nxt ps" using chain_agree [OF f(4) ag] by simp
  from Cons.prems(3) have dist: "distinct ps" and qn: "q \<notin> set ps" by simp_all
  let ?c = "count + unat (tuple_count (page_hdr ?d))"
  from Cons.IH [of ?t3 ?nxt ?c] rel(1) ch3 dist obtain bp' where bp':
    "count_walk ?c ?nxt ?t3 =
       Some (Inr (?c + chain_count ?bp3 ps), ?t3\<lparr>buffer_pool := bp'\<rparr>)"
    "pool_ok bp'" "same_pages ?bp3 bp'" "pinned_pages (set ps) bp'"
    "\<forall>g < length (frames ?bp3). (\<forall>q' \<in> set ps. page_table ?bp3 q' \<noteq> Some g) \<longrightarrow>
        is_pinned (frames bp' ! g) = is_pinned (frames ?bp3 ! g)"
    by auto
  have cc: "chain_count ?bp3 ps = chain_count ?bp ps" using ag by (rule chain_count_agree)
  have walk: "count_walk count p t =
      Some (Inr (count + chain_count ?bp (q # ps)), t\<lparr>buffer_pool := bp'\<rparr>)"
    using f(1,2,3) bp2(1) hdr bp'(1) cc by (simp add: count_walk_step add.assoc)
  have sp': "same_pages ?bp bp'" using sp3 bp'(3) by (rule same_pages_trans)
  have nxt_f: "page_table ?bp ?nxt \<noteq> Some f"
    using Cons.prems(1) f(4) qn f(1) by (rule chain_next_not)
  have f_not_ps: "\<forall>q' \<in> set ps. page_table ?bp q' \<noteq> Some f"
    using pool_ok_inj [OF Cons.prems(1) _ f(1)] qn by auto
  have pin3: "is_pinned (frames ?bp3 ! f)"
    using rel(3) bp2(4) fl l2 pt2 nxt_f by simp
  have pinf: "is_pinned (frames bp' ! f)"
    using bp'(5) fl l3 pt3 f_not_ps pin3 by simp
  have "page_table bp' q = Some f" using sp' f(1) by (simp add: same_pages_def)
  with pinf bp'(4) have pinned: "pinned_pages (set (q # ps)) bp'"
    by (simp add: pinned_pages_def)
  have others: "\<forall>g < length (frames ?bp). (\<forall>q' \<in> set (q # ps). page_table ?bp q' \<noteq> Some g) \<longrightarrow>
                 is_pinned (frames bp' ! g) = is_pinned (frames ?bp ! g)"
  proof (intro allI impI)
    fix g assume g: "g < length (frames ?bp)"
      and no: "\<forall>q' \<in> set (q # ps). page_table ?bp q' \<noteq> Some g"
    from no f(1) have gf: "g \<noteq> f" by auto
    from no have nops: "\<forall>q' \<in> set ps. page_table ?bp q' \<noteq> Some g" by simp
    have "page_table ?bp ?nxt \<noteq> Some g" using Cons.prems(1) f(4) nops by (rule chain_next_in)
    then have "is_pinned (frames ?bp3 ! g) = is_pinned (frames ?bp ! g)"
      using rel(3) bp2(4) g gf l2 pt2 by simp
    moreover have "is_pinned (frames bp' ! g) = is_pinned (frames ?bp3 ! g)"
      using bp'(5) g l3 pt3 nops by simp
    ultimately show "is_pinned (frames bp' ! g) = is_pinned (frames ?bp ! g)" by simp
  qed
  from walk bp'(2) sp' pinned others show ?case by blast
qed

subsection \<open>Loading a page that is not resident\<close>

lemma writePageToDisk_pages:
  assumes "\<forall>d \<in> set (file_pages f). length d = PAGE_SIZE" "length d0 = PAGE_SIZE"
  shows "\<forall>d \<in> set (file_pages (writePageToDisk p d0 f)). length d = PAGE_SIZE"
proof -
  let ?ext = "(if length (file_pages f) \<le> unat p
               then file_pages f @ replicate (unat p + 1 - length (file_pages f)) (replicate PAGE_SIZE 0)
               else file_pages f)"
  from assms(1) have ext: "\<forall>d \<in> set ?ext. length d = PAGE_SIZE" by auto
  have "set (?ext[unat p := take PAGE_SIZE d0]) \<subseteq> insert (take PAGE_SIZE d0) (set ?ext)"
    by (rule set_update_subset_insert)
  with ext assms(2) show ?thesis
    by (auto simp: writePageToDisk_def Let_def simp del: replicate_Suc)
qed

lemma readPageFromDisk_facts:
  assumes "\<forall>d \<in> set (file_pages f). length d = PAGE_SIZE"
  shows "length (fst (readPageFromDisk p f)) = PAGE_SIZE
       \<and> file_pages (snd (readPageFromDisk p f)) = file_pages f"
  using assms by (auto simp: readPageFromDisk_def)

lemma readPageFromDisk_pages: "file_pages (snd (readPageFromDisk p f)) = file_pages f"
  by (simp add: readPageFromDisk_def)

lemma pool_ok_loaded:
  assumes "pool_ok bp" "page_table bp pid = None" "pid \<noteq> 0"
    and "first_unpinned (frames bp) (lru_list bp) = Some v"
  shows "pool_ok (loaded pid v bp)"
proof -
  from assms(1) have inv: "pool_inv bp" by (rule pool_ok_inv)
  from assms(4) have "v \<in> set (lru_list bp)" by (auto dest: first_unpinned_Some)
  with inv have v: "v < length (frames bp)" by (auto simp: pool_inv_def)
  have "pool_inv (snd (getPage pid bp))" using inv assms(3) by (rule pool_inv_getPage)
  then have inv': "pool_inv (loaded pid v bp)" by (simp add: getPage_miss_ok [OF assms(2,4)])
  let ?q0 = "page_id (frames bp ! v)"
  let ?file = "(if ?q0 \<noteq> 0 \<and> is_dirty (frames bp ! v)
                then writePageToDisk ?q0 (data (frames bp ! v)) (db_file bp) else db_file bp)"
  from assms(1) v have dv: "length (data (frames bp ! v)) = PAGE_SIZE"
    and f0: "\<forall>d \<in> set (file_pages (db_file bp)). length d = PAGE_SIZE"
    by (simp_all add: pool_ok_def)
  have fl: "\<forall>d \<in> set (file_pages ?file). length d = PAGE_SIZE"
  proof (cases "?q0 \<noteq> 0 \<and> is_dirty (frames bp ! v)")
    case True
    with writePageToDisk_pages [OF f0 dv, of ?q0] show ?thesis by simp
  next
    case False
    with f0 show ?thesis by auto
  qed
  have tbl: "page_table (loaded pid v bp) =
      (if ?q0 \<noteq> 0 then (page_table bp)(?q0 := None) else page_table bp)(pid \<mapsto> v)"
    by (simp add: loaded_def Let_def evictFrame_def)
  have len: "length (frames (loaded pid v bp)) = length (frames bp)"
    by (simp add: loaded_def Let_def evictFrame_def)
  have fv: "frames (loaded pid v bp) ! v =
      \<lparr>page_id = pid, is_dirty = False, is_pinned = True, data = fst (readPageFromDisk pid ?file)\<rparr>"
    using v by (simp add: loaded_def Let_def evictFrame_def clear_def)
  have fg: "frames (loaded pid v bp) ! g = frames bp ! g" if "g \<noteq> v" for g
    using that by (simp add: loaded_def Let_def evictFrame_def)
  have fpg: "file_pages (db_file (loaded pid v bp)) = file_pages ?file"
    by (simp add: loaded_def Let_def evictFrame_def readPageFromDisk_pages)
  have d: "\<forall>f < length (frames (loaded pid v bp)).
      page_id (frames (loaded pid v bp) ! f) \<noteq> 0 \<longrightarrow>
      page_table (loaded pid v bp) (page_id (frames (loaded pid v bp) ! f)) = Some f"
  proof (intro allI impI)
    fix g assume g: "g < length (frames (loaded pid v bp))"
      and nz: "page_id (frames (loaded pid v bp) ! g) \<noteq> 0"
    show "page_table (loaded pid v bp) (page_id (frames (loaded pid v bp) ! g)) = Some g"
    proof (cases "g = v")
      case True
      then show ?thesis by (simp add: fv tbl)
    next
      case False
      with nz have nz': "page_id (frames bp ! g) \<noteq> 0" by (simp add: fg)
      with assms(1) g len have pg: "page_table bp (page_id (frames bp ! g)) = Some g"
        by (simp add: pool_ok_def)
      with assms(2) have ne1: "page_id (frames bp ! g) \<noteq> pid" by auto
      have ne2: "page_id (frames bp ! g) \<noteq> ?q0" if nz0: "?q0 \<noteq> 0"
      proof
        assume eq: "page_id (frames bp ! g) = ?q0"
        from assms(1) v nz0 have "page_table bp ?q0 = Some v" unfolding pool_ok_def by blast
        with pg have "Some g = Some v" unfolding eq by simp
        with False show False by simp
      qed
      from False pg ne1 ne2 show ?thesis by (simp add: fg tbl)
    qed
  qed
  have e: "\<forall>f < length (frames (loaded pid v bp)). length (data (frames (loaded pid v bp) ! f)) = PAGE_SIZE"
  proof (intro allI impI)
    fix g assume g: "g < length (frames (loaded pid v bp))"
    show "length (data (frames (loaded pid v bp) ! g)) = PAGE_SIZE"
    proof (cases "g = v")
      case True
      have "length (fst (readPageFromDisk pid ?file)) = PAGE_SIZE"
        using readPageFromDisk_facts [OF fl, of pid] by (rule conjunct1)
      with True show ?thesis by (simp only: fv BufferFrame.select_convs)
    next
      case False
      with assms(1) g len show ?thesis by (simp add: fg pool_ok_def)
    qed
  qed
  from fl have "\<forall>d \<in> set (file_pages (db_file (loaded pid v bp))). length d = PAGE_SIZE"
    unfolding fpg .
  with inv' d e show ?thesis unfolding pool_ok_def by blast
qed

text \<open>
  A miss while the pages of \<open>S\<close> are pinned: either no frame can be taken, or the page is
  loaded into a frame that holds no page of \<open>S\<close>, and the pages of \<open>S\<close> stay as they are.
\<close>

lemma getPage_fresh:
  assumes "pool_ok bp" "page_table bp pid = None" "pid \<noteq> 0" "pinned_pages S bp"
  shows "(getPage pid bp = (Inl NoUnpinnedFrames, bp\<lparr>page_misses := page_misses bp + 1\<rparr>)
           \<and> (\<forall>g < length (frames bp). is_pinned (frames bp ! g)))
       \<or> (\<exists>v bp'. getPage pid bp = (Inr v, bp') \<and> pool_ok bp' \<and> agree S bp bp'
              \<and> page_table bp' pid = Some v)"
proof (cases "first_unpinned (frames bp) (lru_list bp)")
  case None
  from assms(1) have "set (lru_list bp) = {..<length (frames bp)}"
    by (simp add: pool_ok_def pool_inv_def)
  with None have "\<forall>g < length (frames bp). is_pinned (frames bp ! g)"
    by (auto simp: first_unpinned_None)
  with getPage_miss_fail [OF assms(2) None] show ?thesis by simp
next
  case (Some v)
  from Some have unp: "\<not> is_pinned (frames bp ! v)" by (auto dest: first_unpinned_Some)
  from Some have "v \<in> set (lru_list bp)" by (auto dest: first_unpinned_Some)
  with assms(1) have v: "v < length (frames bp)" by (auto simp: pool_ok_def pool_inv_def)
  let ?q0 = "page_id (frames bp ! v)"
  have tbl: "page_table (loaded pid v bp) =
      (if ?q0 \<noteq> 0 then (page_table bp)(?q0 := None) else page_table bp)(pid \<mapsto> v)"
    by (simp add: loaded_def Let_def evictFrame_def)
  have fg: "frames (loaded pid v bp) ! g = frames bp ! g" if "g \<noteq> v" for g
    using that by (simp add: loaded_def Let_def evictFrame_def)
  have "agree S bp (loaded pid v bp)"
    unfolding agree_def
  proof (intro ballI conjI allI impI)
    fix p assume p: "p \<in> S"
    with assms(4) obtain f where f: "page_table bp p = Some f" "is_pinned (frames bp ! f)"
      by (auto simp: pinned_pages_def)
    with unp have fv: "f \<noteq> v" by auto
    from f(1) assms(2) have ne1: "p \<noteq> pid" by auto
    have ne2: "p \<noteq> ?q0" if nz0: "?q0 \<noteq> 0"
    proof
      assume eq: "p = ?q0"
      from assms(1) v nz0 have "page_table bp ?q0 = Some v" unfolding pool_ok_def by blast
      with f(1) fv show False unfolding eq by simp
    qed
    from ne1 ne2 show "page_table (loaded pid v bp) p = page_table bp p" by (simp add: tbl)
    fix f' assume "page_table bp p = Some f'"
    with f(1) fv have "f' \<noteq> v" by simp
    then show "data (frames (loaded pid v bp) ! f') = data (frames bp ! f')" by (simp add: fg)
  qed
  moreover have "pool_ok (loaded pid v bp)" using assms(1-3) Some by (rule pool_ok_loaded)
  moreover have "page_table (loaded pid v bp) pid = Some v" by (simp add: tbl)
  ultimately show ?thesis using getPage_miss_ok [OF assms(2) Some] by blast
qed

subsection \<open>Page headers in memory\<close>

lemma PageHeader_roundtrip: "PageHeader_of_bytes (PageHeader_bytes h) = h"
  by (simp add: PageHeader_of_bytes_def PageHeader_bytes_def of_le_le32)

lemma length_PageHeader_bytes [simp]: "length (PageHeader_bytes h) = 16"
  by (simp add: PageHeader_bytes_def)

lemma poke_header:
  assumes "length d = PAGE_SIZE"
  shows "\<exists>d'. poke d 0 (PageHeader_bytes h) = Inr d' \<and> length d' = PAGE_SIZE \<and> page_hdr d' = h"
  using assms
  by (simp add: poke_def PAGE_SIZE_def page_hdr_def sizeof_PageHeader_def PageHeader_roundtrip)

lemma set_frame_data_facts:
  assumes "pool_ok bp" "page_table bp p = Some f" "length d = PAGE_SIZE" "p \<notin> S"
  shows "pool_ok (set_frame_data f d bp) \<and> agree S bp (set_frame_data f d bp)
       \<and> page_table (set_frame_data f d bp) = page_table bp
       \<and> data (frames (set_frame_data f d bp) ! f) = d"
proof -
  from pool_ok_frame [OF assms(1,2)] have f: "f < length (frames bp)" by simp
  have "agree S bp (set_frame_data f d bp)"
    unfolding agree_def
  proof (intro ballI conjI allI impI)
    fix q assume q: "q \<in> S"
    show "page_table (set_frame_data f d bp) q = page_table bp q" by (simp add: set_frame_data_def)
    fix g assume g: "page_table bp q = Some g"
    have "g \<noteq> f"
    proof
      assume "g = f"
      with g have "page_table bp q = Some f" by simp
      from pool_ok_inj [OF assms(1) this assms(2)] q assms(4) show False by simp
    qed
    then show "data (frames (set_frame_data f d bp) ! g) = data (frames bp ! g)"
      by (simp add: set_frame_data_def)
  qed
  moreover have "pool_ok (set_frame_data f d bp)"
    using assms(1,3) f
    by (auto simp: pool_ok_def pool_inv_def set_frame_data_def nth_list_update)
  ultimately show ?thesis using f by (simp add: set_frame_data_def)
qed

subsection \<open>Allocating a page while the chain is pinned\<close>


lemma allocateNewPage_facts:
  assumes "pool_ok (buffer_pool t)" "pinned_pages S (buffer_pool t)"
    and "next_page_id t \<notin> S" "next_page_id t \<noteq> 0"
  shows "(\<exists>t'. allocateNewPage t = (Inl NoUnpinnedFrames, t')
            \<and> (\<forall>g < length (frames (buffer_pool t)). is_pinned (frames (buffer_pool t) ! g))
            \<and> pool_ok (buffer_pool t') \<and> agree S (buffer_pool t) (buffer_pool t')
            \<and> schema t' = schema t \<and> first_page_id t' = first_page_id t)
       \<or> (\<exists>t' f. allocateNewPage t = (Inr (next_page_id t), t')
            \<and> pool_ok (buffer_pool t') \<and> agree S (buffer_pool t) (buffer_pool t')
            \<and> schema t' = schema t \<and> first_page_id t' = first_page_id t
            \<and> page_table (buffer_pool t') (next_page_id t) = Some f
            \<and> free_space (page_hdr (data (frames (buffer_pool t') ! f)))
                = of_nat (PAGE_SIZE - sizeof_PageHeader))"
proof -
  let ?bp = "buffer_pool t"
  let ?new = "next_page_id t"
  let ?t1 = "t\<lparr>next_page_id := next_page_id t + 1\<rparr>"
  let ?h = "\<lparr>PageHeader.page_id = ?new, free_space = of_nat (PAGE_SIZE - sizeof_PageHeader),
             tuple_count = 0, next_page = 0\<rparr>"
  have loaded_case: ?thesis
    if g: "getPage ?new ?bp = (Inr f, bp1)" and ok1: "pool_ok bp1" and ag1: "agree S ?bp bp1"
      and pt1: "page_table bp1 ?new = Some f" for f bp1
  proof -
    from pool_ok_frame [OF ok1 pt1] have len: "length (data (frames bp1 ! f)) = PAGE_SIZE" by simp
    from poke_header [OF len, of ?h] obtain d where d:
      "poke (data (frames bp1 ! f)) 0 (PageHeader_bytes ?h) = Inr d" "length d = PAGE_SIZE"
      "page_hdr d = ?h" by blast
    let ?bp2 = "set_frame_data f d bp1"
    from set_frame_data_facts [OF ok1 pt1 d(2) assms(3)] have s:
      "pool_ok ?bp2" "agree S bp1 ?bp2" "page_table ?bp2 = page_table bp1"
      "data (frames ?bp2 ! f) = d" by simp_all
    let ?bp3 = "markDirty ?new ?bp2"
    from markDirty_facts [OF s(1), of ?new] have m: "pool_ok ?bp3" "same_pages ?bp2 ?bp3" by simp_all
    let ?bp4 = "releasePage ?new ?bp3"
    from releasePage_facts [OF m(1), of ?new] have r: "pool_ok ?bp4" "same_pages ?bp3 ?bp4" by simp_all
    have sp: "same_pages ?bp2 ?bp4" using m(2) r(2) by (rule same_pages_trans)
    have ag4: "agree S ?bp ?bp4"
      using ag1 s(2) same_pages_agree [OF sp, of S] by (blast intro: agree_trans)
    have pt4: "page_table ?bp4 ?new = Some f" using sp s(3) pt1 by (simp add: same_pages_def)
    have d4: "data (frames ?bp4 ! f) = d" using same_pages_data [OF sp, of f] s(4) by simp
    have "allocateNewPage t = (Inr ?new, ?t1\<lparr>buffer_pool := ?bp4\<rparr>)"
      using g d(1) by (simp add: allocateNewPage_def Let_def frame_data_def)
    with r(1) ag4 pt4 d4 d(3) show ?thesis by auto
  qed
  show ?thesis
  proof (cases "page_table ?bp ?new")
    case (Some f)
    from getPage_resident [OF assms(1) Some] obtain bp1 where bp1:
      "getPage ?new ?bp = (Inr f, bp1)" "pool_ok bp1" "same_pages ?bp bp1" by blast
    have "page_table bp1 ?new = Some f" using bp1(3) Some by (simp add: same_pages_def)
    with bp1(1,2) same_pages_agree [OF bp1(3), of S] show ?thesis by (intro loaded_case)
  next
    case None
    from getPage_fresh [OF assms(1) None assms(4) assms(2)] show ?thesis
    proof
      assume fail: "getPage ?new ?bp = (Inl NoUnpinnedFrames, ?bp\<lparr>page_misses := page_misses ?bp + 1\<rparr>)
        \<and> (\<forall>g < length (frames ?bp). is_pinned (frames ?bp ! g))"
      then have "allocateNewPage t =
          (Inl NoUnpinnedFrames, ?t1\<lparr>buffer_pool := ?bp\<lparr>page_misses := page_misses ?bp + 1\<rparr>\<rparr>)"
        by (simp add: allocateNewPage_def Let_def)
      moreover have "pool_ok (?bp\<lparr>page_misses := page_misses ?bp + 1\<rparr>)"
        using assms(1) by (simp add: pool_ok_def pool_inv_def)
      moreover have "agree S ?bp (?bp\<lparr>page_misses := page_misses ?bp + 1\<rparr>)"
        by (simp add: agree_def)
      ultimately show ?thesis using fail by auto
    next
      assume "\<exists>v bp'. getPage ?new ?bp = (Inr v, bp') \<and> pool_ok bp' \<and> agree S ?bp bp'
                \<and> page_table bp' ?new = Some v"
      then obtain v bp' where "getPage ?new ?bp = (Inr v, bp')" "pool_ok bp'" "agree S ?bp bp'"
        "page_table bp' ?new = Some v" by blast
      then show ?thesis by (rule loaded_case)
    qed
  qed
qed

subsection \<open>An insert that no page accepts\<close>

text \<open>
  The state of a table whose chain is the list \<open>ps\<close>: the pages of the chain are resident
  and distinct, no page of the chain has more free space than an empty page, and the next
  page id is neither 0 nor a page of the chain.
\<close>

definition chain_ok :: "Table \<Rightarrow> PageId list \<Rightarrow> bool" where
  "chain_ok t ps \<longleftrightarrow>
     pool_ok (buffer_pool t) \<and> chain (buffer_pool t) (first_page_id t) ps \<and> distinct ps
     \<and> next_page_id t \<notin> set ps \<and> next_page_id t \<noteq> 0
     \<and> (\<forall>q \<in> set ps. \<forall>f. page_table (buffer_pool t) q = Some f \<longrightarrow>
           unat (free_space (page_hdr (data (frames (buffer_pool t) ! f))))
             \<le> PAGE_SIZE - sizeof_PageHeader)"

lemma getTupleSize_assign_id:
  "getTupleSize sch (fst (assign_id tuple t)) = getTupleSize sch tuple"
  by (simp add: assign_id_def getTupleSize_def)

lemma assign_id_table:
  "buffer_pool (snd (assign_id tuple t)) = buffer_pool t
   \<and> schema (snd (assign_id tuple t)) = schema t
   \<and> first_page_id (snd (assign_id tuple t)) = first_page_id t
   \<and> next_page_id (snd (assign_id tuple t)) = next_page_id t"
  by (simp add: assign_id_def)

lemma same_scan:
  assumes "pool_ok (buffer_pool t)" "chain (buffer_pool t) (first_page_id t) ps"
    and "pool_ok (buffer_pool t')" "agree (set ps) (buffer_pool t) (buffer_pool t')"
    and "schema t' = schema t" "first_page_id t' = first_page_id t"
  shows "\<exists>res u u'. selectAll t = Some (res, u) \<and> selectAll t' = Some (res, u')"
proof -
  from selectAll_chain [OF assms(1,2)] obtain u where
    u: "selectAll t = Some (scan (schema t) (buffer_pool t) ps, u)" by blast
  have "chain (buffer_pool t') (first_page_id t') ps"
    using chain_agree [OF assms(2,4)] assms(6) by simp
  from selectAll_chain [OF assms(3) this] obtain u' where
    "selectAll t' = Some (scan (schema t') (buffer_pool t') ps, u')" by blast
  with scan_agree [OF assms(4), of "schema t"] assms(5) u show ?thesis by simp
qed

text \<open>
  In a table whose chain pages are resident and hold at most \<open>PAGE_SIZE - 16\<close> free
  bytes each, for every tuple whose size (\<open>getTupleSize\<close>) exceeds \<open>PAGE_SIZE - 16 = 4080\<close>:
  \<open>insertTuple\<close> terminates and does not insert. It returns \<open>false\<close>, or its \<open>getPage\<close>
  for the new page raises because no frame is evictable (then every frame that holds no
  chain page was pinned before the call). A full scan after the call returns what a full
  scan before the call returns.
\<close>

lemma oversize_tuple_rejected:
  assumes "chain_ok t ps"
    and "getTupleSize (schema t) tuple = Inr sz"
    and "PAGE_SIZE - sizeof_PageHeader < sz"
  shows "\<exists>r t'. insertTuple d2s tuple t = Some (r, t')
           \<and> (r = Inr False \<or> r = Inl NoUnpinnedFrames)
           \<and> (r = Inl NoUnpinnedFrames \<longrightarrow>
                (\<forall>g < length (frames (buffer_pool t)).
                    (\<forall>q \<in> set ps. page_table (buffer_pool t) q \<noteq> Some g) \<longrightarrow>
                    is_pinned (frames (buffer_pool t) ! g)))
           \<and> (\<exists>res u u'. selectAll t = Some (res, u) \<and> selectAll t' = Some (res, u'))"
proof -
  let ?bp = "buffer_pool t"
  obtain nt t0 where a: "assign_id tuple t = (nt, t0)" by (cases "assign_id tuple t")
  from assign_id_table [of tuple t] a have t0: "buffer_pool t0 = ?bp" "schema t0 = schema t"
    "first_page_id t0 = first_page_id t" "next_page_id t0 = next_page_id t" by simp_all
  from getTupleSize_assign_id [of "schema t" tuple t] a assms(2)
  have sz: "getTupleSize (schema t0) nt = Inr sz" by (simp add: t0)
  from assms(1) have ok: "pool_ok ?bp" and ch: "chain ?bp (first_page_id t) ps"
    and dist: "distinct ps" and fresh: "next_page_id t \<notin> set ps" "next_page_id t \<noteq> 0"
    and fs: "\<forall>q \<in> set ps. \<forall>f. page_table ?bp q = Some f \<longrightarrow>
           unat (free_space (page_hdr (data (frames ?bp ! f)))) \<le> PAGE_SIZE - sizeof_PageHeader"
    by (simp_all add: chain_ok_def)
  from fs assms(3) have small: "\<forall>q \<in> set ps. \<forall>f. page_table (buffer_pool t0) q = Some f \<longrightarrow>
           unat (free_space (page_hdr (data (frames (buffer_pool t0) ! f)))) < sz"
    by (auto simp: t0)
  from insert_walk_refused [of t0 "first_page_id t0" ps nt sz d2s] ok ch dist sz small
  obtain bp1 where w: "insert_walk d2s nt (first_page_id t0) t0 = Some (Inr False, t0\<lparr>buffer_pool := bp1\<rparr>)"
    "pool_ok bp1" "same_pages ?bp bp1" "pinned_pages (set ps) bp1"
    "\<forall>g < length (frames ?bp). (\<forall>q \<in> set ps. page_table ?bp q \<noteq> Some g) \<longrightarrow>
        is_pinned (frames bp1 ! g) = is_pinned (frames ?bp ! g)"
    by (auto simp: t0)
  let ?t1 = "t0\<lparr>buffer_pool := bp1\<rparr>"
  have ins: "insertTuple d2s tuple t = Some (insert_new_page d2s nt ?t1)"
    using a w(1) by (simp add: insertTuple_def)
  have ag1: "agree (set ps) ?bp bp1" using w(3) by (rule same_pages_agree)
  have l1: "length (frames bp1) = length (frames ?bp)" using w(3) by (rule same_pages_length)
  from allocateNewPage_facts [of ?t1 "set ps"] w(2,4) fresh t0
  consider (full) t2 where "allocateNewPage ?t1 = (Inl NoUnpinnedFrames, t2)"
      "\<forall>g < length (frames bp1). is_pinned (frames bp1 ! g)"
      "pool_ok (buffer_pool t2)" "agree (set ps) bp1 (buffer_pool t2)"
      "schema t2 = schema t" "first_page_id t2 = first_page_id t"
    | (page) t2 f where "allocateNewPage ?t1 = (Inr (next_page_id t), t2)"
      "pool_ok (buffer_pool t2)" "agree (set ps) bp1 (buffer_pool t2)"
      "schema t2 = schema t" "first_page_id t2 = first_page_id t"
      "page_table (buffer_pool t2) (next_page_id t) = Some f"
      "free_space (page_hdr (data (frames (buffer_pool t2) ! f))) = of_nat (PAGE_SIZE - sizeof_PageHeader)"
    by auto
  then show ?thesis
  proof cases
    case full
    have r: "insertTuple d2s tuple t = Some (Inl NoUnpinnedFrames, t2)"
      using ins full(1) by (simp add: insert_new_page_def)
    have ag: "agree (set ps) ?bp (buffer_pool t2)" using ag1 full(4) by (rule agree_trans)
    have pins: "\<forall>g < length (frames ?bp). (\<forall>q \<in> set ps. page_table ?bp q \<noteq> Some g) \<longrightarrow>
                    is_pinned (frames ?bp ! g)"
      using full(2) w(5) l1 by auto
    from same_scan [OF ok ch full(3) ag full(5,6)] r pins show ?thesis by auto
  next
    case page
    have "unat (of_nat (PAGE_SIZE - sizeof_PageHeader) :: 32 word) = PAGE_SIZE - sizeof_PageHeader"
      by (simp add: PAGE_SIZE_def sizeof_PageHeader_def)
    with page(7) assms(3)
    have small2: "unat (free_space (page_hdr (data (frames (buffer_pool t2) ! f)))) < sz" by simp
    have sz2: "getTupleSize (schema t2) nt = Inr sz" using sz page(4) t0 by simp
    from insertTupleIntoPage_refuses [OF page(2) page(6) sz2 small2] obtain bp3 where bp3:
      "insertTupleIntoPage (next_page_id t) nt t2 = (Inr False, t2\<lparr>buffer_pool := bp3\<rparr>)"
      "pool_ok bp3" "same_pages (buffer_pool t2) bp3" by blast
    have r: "insertTuple d2s tuple t = Some (Inr False, t2\<lparr>buffer_pool := bp3\<rparr>)"
      using ins page(1) bp3(1) by (simp add: insert_new_page_def)
    have ag: "agree (set ps) ?bp bp3"
      using ag1 page(3) same_pages_agree [OF bp3(3), of "set ps"] by (blast intro: agree_trans)
    from same_scan [OF ok ch, of "t2\<lparr>buffer_pool := bp3\<rparr>"] bp3(2) ag page(4,5) r
    show ?thesis by auto
  qed
qed

section \<open>Scenarios\<close>

text \<open>Inserting a list of tuples one after the other; the results in order.\<close>

fun insert_all ::
  "(64 word \<Rightarrow> string) \<Rightarrow> Tuple list \<Rightarrow> Table \<Rightarrow> ((error + bool) list \<times> Table) option" where
  "insert_all d2s [] t = Some ([], t)"
| "insert_all d2s (x # xs) t =
     (case insertTuple d2s x t of
        None \<Rightarrow> None
      | Some (r, t') \<Rightarrow>
          (case insert_all d2s xs t' of None \<Rightarrow> None | Some (rs, t'') \<Rightarrow> Some (r # rs, t'')))"

text \<open>A table with one VARCHAR column, and a row with a text of \<open>n\<close> bytes.\<close>

definition text_schema :: Schema where
  "text_schema = \<lparr>columns = [\<lparr>column_name = ''payload'', column_type = VARCHAR, column_size = 0\<rparr>]\<rparr>"

definition text_row :: "nat \<Rightarrow> Tuple" where
  "text_row n = \<lparr>t_id = 0, t_values = [VString (replicate n (CHR ''a''))]\<rparr>"

text \<open>A table with one INTEGER column.\<close>

definition int_schema :: Schema where
  "int_schema = \<lparr>columns = [\<lparr>column_name = ''id'', column_type = INTEGER, column_size = 0\<rparr>]\<rparr>"

text \<open>The tables of the scenarios have no index, so no double is ever formatted.\<close>

definition no_d2s :: "64 word \<Rightarrow> string" where
  "no_d2s d = []"

text \<open>The pins of the first \<open>n\<close> frames.\<close>

definition pins :: "nat \<Rightarrow> Table \<Rightarrow> (PageId \<times> bool) list" where
  "pins n t = map (\<lambda>f. (page_id f, is_pinned f)) (take n (frames (buffer_pool t)))"

subsection \<open>Evaluation\<close>

lemma skip_tuples_pos:
  "0 < n \<Longrightarrow> skip_tuples buffer offset n =
     (case read_TupleHeader buffer offset of
        Inl e \<Rightarrow> Inl e
      | Inr existing_tuple_header \<Rightarrow>
          skip_tuples buffer (offset + unat (tuple_size existing_tuple_header)) (n - 1))"
  by (cases n) (simp_all split: sum.splits)

lemma read_tuples_pos:
  "0 < n \<Longrightarrow> read_tuples sch buffer offset n =
     (case deserializeTuple sch buffer offset of
        Inl e \<Rightarrow> Inl e
      | Inr tuple \<Rightarrow>
          (case read_TupleHeader buffer offset of
             Inl e \<Rightarrow> Inl e
           | Inr tuple_header \<Rightarrow>
               (case read_tuples sch buffer (offset + unat (tuple_size tuple_header)) (n - 1) of
                  Inl e \<Rightarrow> Inl e
                | Inr tuples \<Rightarrow> Inr (tuple # tuples))))"
  by (cases n) (simp_all split: sum.splits)

text \<open>
  The frames and the LRU list of a pool of \<open>BUFFER_POOL_SIZE\<close> frames are kept as they
  are built, \<open>replicate n new_BufferFrame\<close> and \<open>[i..<n]\<close>, and opened only where touched.
\<close>

lemma list_update_replicate:
  "i < n \<Longrightarrow> (replicate n x)[i := y] = replicate i x @ y # replicate (n - Suc i) x"
proof (induction n arbitrary: i)
  case 0
  then show ?case by simp
next
  case (Suc n)
  then show ?case by (cases i) simp_all
qed

lemma first_unpinned_upt:
  "i < n \<Longrightarrow> first_unpinned frs [i..<n] =
     (if \<not> is_pinned (frs ! i) then Some i else first_unpinned frs [Suc i..<n])"
  by (simp add: upt_conv_Cons)

lemma remove1_upt_head: "i < n \<Longrightarrow> remove1 i [i..<n] = [Suc i..<n]"
  by (simp add: upt_conv_Cons)

lemma removeAll_upt_below: "f < i \<Longrightarrow> removeAll f [i..<n] = [i..<n]"
  by (simp add: removeAll_id)

lemma of_le_zeros [simp]: "of_le (replicate n 0) = 0"
  by (induction n) simp_all

lemma byte_of_char_a [simp]: "byte_of_char (CHR ''a'') = 97"
  by (simp add: byte_of_char_def)

lemma char_of_byte_a [simp]: "char_of_byte 97 = CHR ''a''"
  using char_of_byte_of_char [of "CHR ''a''"] by simp

lemmas lazy_pool =
  list_update_replicate first_unpinned_upt remove1_upt_head removeAll_upt_below
  list_update_append nth_append

lemmas table_eval =
  loadExistingTableData_def Table_sized_def new_Table_def allocateNewPage_def
  insertTupleIntoPage_def read_PageHeader_def read_TupleHeader_def peek_def poke_def
  PageHeader_of_bytes_def PageHeader_bytes_def TupleHeader_of_bytes_def TupleHeader_bytes_def
  sizeof_PageHeader_def sizeof_TupleHeader_def set_frame_data_def frame_data_def
  getTupleSize_def serializeTuple_def deserializeTuple_def readTuplesFromPage_def
  le32_def le64_def insertTuple_def assign_id_def insert_new_page_def link_new_page_def
  skip_tuples_pos read_tuples_pos insert_walk_0 insert_walk_step select_walk_0 select_walk_step
  count_walk_0 count_walk_step selectAll_def getTupleCount_def BufferPool_sized_def
  BUFFER_POOL_SIZE_def text_schema_def text_row_def int_schema_def pins_def

subsection \<open>A miss after a read past the end of the file\<close>

text \<open>A file that holds the pages 0 and 1; every byte of page 1 is 7.\<close>

definition two_page_file :: fstream where
  "two_page_file = \<lparr>file_pages = [replicate PAGE_SIZE 0, replicate PAGE_SIZE 7], failbit = False\<rparr>"

text \<open>
  C7 (the code departs from the claim). A pool on a file that holds page 1. A first miss on
  page 1 loads it: the frame holds the page's bytes. But after a miss on page 2, which is
  past the end of the file, the read has left the stream in its failed state, and
  \<open>readPageFromDisk\<close> never clears it (\<open>writePageToDisk\<close> does): the later miss on page 1
  finds an unpinned frame, does not raise, and returns a frame of zeros, while page 1 is
  still in the file.
\<close>

theorem C7_miss_after_eof_loads_zeros:
  "(let bp0 = new_BufferPool two_page_file;
        (r1, bp1) = getPage 1 bp0;
        (r2, bp2) = getPage 2 bp0;
        bp3 = releasePage 2 bp2;
        (r3, bp4) = getPage 1 bp3
    in (r1, data (frames bp1 ! 0) = replicate PAGE_SIZE 7,
        r2, page_table bp3 1, is_pinned (frames bp3 ! 0),
        r3, page_table bp4 1, data (frames bp4 ! 0) = replicate PAGE_SIZE 0,
        file_pages (db_file bp4) ! 1 = replicate PAGE_SIZE 7))
   = (Inr 0, True, Inr 0, None, False, Inr 0, Some 0, True, True)"
  by (simp add: new_BufferPool_def BufferPool_sized_def BUFFER_POOL_SIZE_def two_page_file_def
      pool_eval lazy_pool)

subsection \<open>Twenty rows\<close>

text \<open>
  C1 (the code departs from the claim). A new table with one VARCHAR column in a new file, and
  twenty rows with a text of 1000 bytes each (1020 bytes a tuple, four to a page). All
  twenty inserts return \<open>true\<close>, and the tuple ids 1 to 20 and the pages 1 to 5 are used.
  Each new page is linked by overwriting \<open>next_page\<close> of the first page, so the chain is
  page 1 and page 5 only: \<open>selectAll\<close> returns the 8 rows with the ids 1 to 4 and 17 to 20,
  and \<open>getTupleCount\<close> returns 8, while \<open>next_tuple_id - 1\<close> is 20.
\<close>

theorem C1_chain_keeps_two_pages:
  "(case new_Table ''t'' text_schema empty_file of
      Some (Inr u, t0) \<Rightarrow>
        (case insert_all d2s
                [text_row 1000, text_row 1000, text_row 1000, text_row 1000, text_row 1000,
                 text_row 1000, text_row 1000, text_row 1000, text_row 1000, text_row 1000,
                 text_row 1000, text_row 1000, text_row 1000, text_row 1000, text_row 1000,
                 text_row 1000, text_row 1000, text_row 1000, text_row 1000, text_row 1000] t0 of
           Some (rs, t) \<Rightarrow>
             (rs, next_tuple_id t, next_page_id t,
              case selectAll t of Some (Inr ts, t') \<Rightarrow> map t_id ts,
              case getTupleCount t of Some (r, t') \<Rightarrow> r)))
   = ([Inr True, Inr True, Inr True, Inr True, Inr True, Inr True, Inr True, Inr True, Inr True,
       Inr True, Inr True, Inr True, Inr True, Inr True, Inr True, Inr True, Inr True, Inr True,
       Inr True, Inr True],
      21, 6, [1, 2, 3, 4, 17, 18, 19, 20], Inr 8)"
  by (simp add: pool_eval table_eval lazy_pool)

subsection \<open>A tuple that is larger than a page\<close>

text \<open>A row of two texts for a table with one column; the second text has \<open>n\<close> bytes.\<close>

definition two_text_row :: "nat \<Rightarrow> Tuple" where
  "two_text_row n = \<lparr>t_id = 0, t_values = [VString ''a'', VString (replicate n (CHR ''a''))]\<rparr>"

text \<open>The \<open>free_space\<close> fields of the page headers in the first \<open>n\<close> frames.\<close>

definition free_spaces :: "nat \<Rightarrow> Table \<Rightarrow> nat list" where
  "free_spaces n t =
     map (\<lambda>f. unat (free_space (page_hdr (data f)))) (take n (frames (buffer_pool t)))"

text \<open>
  C4 (the code departs from the claim). \<open>insertTupleIntoPage\<close> compares \<open>getTupleSize\<close>,
  which goes by the column types, with \<open>free_space\<close>, and then subtracts from \<open>free_space\<close>
  what \<open>serializeTuple\<close> wrote, which goes by the values.

  First, a new table with one INTEGER column and a tuple whose one value is a text of 5000
  bytes: the tuple is measured as 20 bytes, the guard lets it pass, and \<open>serializeTuple\<close>,
  which needs 5020 bytes for it, copies past the end of the 4096 bytes of the frame.

  Second, a new table with one VARCHAR column. Two rows of two texts each are measured as
  21 bytes and written as 3025 bytes: \<open>insertTuple\<close> returns \<open>true\<close> for both, and
  \<open>free_space\<close> of page 1 goes from 4080 to 1055 and wraps to 4294965326. A row with one text
  of 5000 bytes, which fits the schema and is measured as 5020 bytes, then passes the guard
  and is copied past the end of the frame.
\<close>

theorem C4_oversize_tuple_is_written:
  "(case new_Table ''t'' int_schema empty_file of
      Some (Inr u, t0) \<Rightarrow>
        (getTupleSize (schema t0) (text_row 5000),
         case serializeTuple (schema t0) (text_row 5000) (replicate 8192 0) 16 of
           Inr (b, written_size) \<Rightarrow> written_size,
         free_spaces 1 t0,
         case insertTuple d2s (text_row 5000) t0 of Some (r, t') \<Rightarrow> r))
   = (Inr 20, 5020, [4080], Inl OutOfBounds)
   \<and> (case new_Table ''t'' text_schema empty_file of
        Some (Inr u, t0) \<Rightarrow>
          (case insert_all d2s [two_text_row 3000, two_text_row 3000] t0 of
             Some (rs, t2) \<Rightarrow>
               (getTupleSize (schema t0) (two_text_row 3000), rs, free_spaces 1 t2,
                getTupleSize (schema t2) (text_row 5000),
                case insertTuple d2s (text_row 5000) t2 of Some (r, t') \<Rightarrow> r)))
     = (Inr 21, [Inr True, Inr True], [4294965326], Inr 5020, Inl OutOfBounds)"
  by (simp add: pool_eval table_eval lazy_pool two_text_row_def free_spaces_def page_hdr_def)

subsection \<open>A table of one row\<close>

lemma all_less_4: "(\<forall>f<4. P f) \<longleftrightarrow> P 0 \<and> P (Suc 0) \<and> P 2 \<and> P (3::nat)"
proof -
  have "\<And>f::nat. f < 4 \<longleftrightarrow> f = 0 \<or> f = Suc 0 \<or> f = 2 \<or> f = 3" by arith
  then show ?thesis by auto
qed

lemma one_row_table:
  "\<exists>t0 t1. Table_sized 4 ''t'' text_schema empty_file = Some (Inr (), t0)
     \<and> insertTuple no_d2s (text_row 10) t0 = Some (Inr True, t1)
     \<and> chain_ok t1 [1] \<and> schema t1 = text_schema"
proof -
  let ?t0 = "snd (the (Table_sized 4 ''t'' text_schema empty_file))"
  let ?t1 = "snd (the (insertTuple no_d2s (text_row 10) ?t0))"
  have a: "Table_sized 4 ''t'' text_schema empty_file = Some (Inr (), ?t0)"
    by (simp add: pool_eval table_eval lazy_pool)
  have b: "insertTuple no_d2s (text_row 10) ?t0 = Some (Inr True, ?t1)"
    by (simp add: pool_eval table_eval lazy_pool no_d2s_def)
  have c: "chain_ok ?t1 [1]"
    by (auto simp: pool_eval table_eval lazy_pool no_d2s_def chain_ok_def pool_ok_def pool_inv_def
        page_hdr_def all_less_4 nth_Cons')
  have d: "schema ?t1 = text_schema"
    by (simp add: pool_eval table_eval lazy_pool no_d2s_def)
  from a b c d show ?thesis by blast
qed

text \<open>
  An instance: a table of four frames that holds one row refuses a row of 5000 bytes.
\<close>

lemma oversize_tuple_rejected_example:
  "\<exists>t0 t1. Table_sized 4 ''t'' text_schema empty_file = Some (Inr (), t0)
     \<and> insertTuple no_d2s (text_row 10) t0 = Some (Inr True, t1)
     \<and> chain_ok t1 [1]
     \<and> getTupleSize (schema t1) (text_row 5000) = Inr 5020
     \<and> PAGE_SIZE - sizeof_PageHeader < 5020
     \<and> (\<exists>r t'. insertTuple no_d2s (text_row 5000) t1 = Some (r, t')
           \<and> (r = Inr False \<or> r = Inl NoUnpinnedFrames)
           \<and> (\<exists>res u u'. selectAll t1 = Some (res, u) \<and> selectAll t' = Some (res, u')))"
proof -
  from one_row_table obtain t0 t1 where t:
    "Table_sized 4 ''t'' text_schema empty_file = Some (Inr (), t0)"
    "insertTuple no_d2s (text_row 10) t0 = Some (Inr True, t1)"
    "chain_ok t1 [1]" "schema t1 = text_schema" by blast
  have sz: "getTupleSize (schema t1) (text_row 5000) = Inr 5020"
    by (simp add: t(4) getTupleSize_def text_schema_def text_row_def sizeof_TupleHeader_def)
  have big: "PAGE_SIZE - sizeof_PageHeader < 5020"
    by (simp add: PAGE_SIZE_def sizeof_PageHeader_def)
  from oversize_tuple_rejected [OF t(3) sz big, of no_d2s]
  have "\<exists>r t'. insertTuple no_d2s (text_row 5000) t1 = Some (r, t')
           \<and> (r = Inr False \<or> r = Inl NoUnpinnedFrames)
           \<and> (\<exists>res u u'. selectAll t1 = Some (res, u) \<and> selectAll t' = Some (res, u'))"
    by blast
  with t(1-3) sz big show ?thesis by blast
qed

subsection \<open>Values that do not fit the schema\<close>

text \<open>
  Some VARCHAR column, within the length of both lists, meets a value that is not a
  string.
\<close>

fun string_expected :: "Column list \<Rightarrow> Value list \<Rightarrow> bool" where
  "string_expected (c # cs) (v # vs) \<longleftrightarrow>
     (case column_type c of
        VARCHAR \<Rightarrow> (case v of VString s \<Rightarrow> string_expected cs vs | _ \<Rightarrow> True)
      | _ \<Rightarrow> string_expected cs vs)"
| "string_expected cs vs \<longleftrightarrow> False"

lemma tuple_size_loop_throws:
  "string_expected cs vs \<Longrightarrow> tuple_size_loop cs vs sz = Inl BadVariantAccess"
  by (induction cs vs sz rule: tuple_size_loop.induct)
    (auto split: DataType.splits Value.splits)

lemma tuple_size_loop_returns:
  "\<not> string_expected cs vs \<Longrightarrow> \<exists>n. tuple_size_loop cs vs sz = Inr n"
  by (induction cs vs sz rule: tuple_size_loop.induct)
    (auto split: DataType.splits Value.splits)

lemma t_values_assign_id: "t_values (fst (assign_id tuple t)) = t_values tuple"
  by (simp add: assign_id_def)

text \<open>
  C6, as the claim states it, fails. A new table with one INTEGER column: the insert of two
  integers (wrong arity) returns \<open>true\<close>, and so does the insert of a boolean (wrong type);
  a full scan then returns two rows.
\<close>

theorem C6_counterexample:
  "(case Table_sized 4 ''t'' int_schema empty_file of
      Some (Inr u, t0) \<Rightarrow>
        (case insert_all no_d2s
                [\<lparr>t_id = 0, t_values = [VInt 1, VInt 2]\<rparr>, \<lparr>t_id = 0, t_values = [VBool True]\<rparr>] t0 of
           Some (rs, t) \<Rightarrow>
             (rs, case selectAll t0 of Some (r, t') \<Rightarrow> r, case selectAll t of Some (r, t') \<Rightarrow> r)))
   = ([Inr True, Inr True], Inr [],
      Inr [\<lparr>t_id = 1, t_values = [VInt 1]\<rparr>, \<lparr>t_id = 2, t_values = [VInt 1]\<rparr>])"
  by (simp add: pool_eval table_eval lazy_pool no_d2s_def)

subsection \<open>Pools that differ in their counters\<close>

text \<open>
  Two LRU lists are equivalent when a search for the first frame with a property finds the
  same frame in both. Later copies of a frame id in the list do not matter.
\<close>

definition lru_eq :: "BufferFrameId list \<Rightarrow> BufferFrameId list \<Rightarrow> bool" where
  "lru_eq l l' \<longleftrightarrow> (\<forall>P. find P l = find P l')"

lemma first_unpinned_find: "first_unpinned frs l = find (\<lambda>i. \<not> is_pinned (frs ! i)) l"
  by (induction l) simp_all

lemma find_removeAll_other: "\<not> P x \<Longrightarrow> find P (removeAll x l) = find P l"
  by (induction l) auto

lemma find_remove1_other: "\<not> P x \<Longrightarrow> find P (remove1 x l) = find P l"
  by (induction l) auto

lemma find_front_removeAll: "find P (x # removeAll x l) = (if P x then Some x else find P l)"
  by (simp add: find_removeAll_other)

lemma find_front_remove1: "find P (x # remove1 x l) = (if P x then Some x else find P l)"
  by (simp add: find_remove1_other)

lemma lru_eq_refl [simp]: "lru_eq l l"
  by (simp add: lru_eq_def)

lemma lru_eq_sym: "lru_eq l l' \<Longrightarrow> lru_eq l' l"
  by (simp add: lru_eq_def)

lemma lru_eq_trans: "lru_eq a b \<Longrightarrow> lru_eq b c \<Longrightarrow> lru_eq a c"
  by (simp add: lru_eq_def)

lemma lru_eq_removeAll: "lru_eq l l' \<Longrightarrow> lru_eq (x # removeAll x l) (x # removeAll x l')"
  unfolding lru_eq_def by (simp only: find_front_removeAll) simp

lemma lru_eq_remove1: "lru_eq l l' \<Longrightarrow> lru_eq (x # remove1 x l) (x # remove1 x l')"
  unfolding lru_eq_def by (simp only: find_front_remove1) simp

lemma lru_eq_again: "lru_eq (x # l) (x # removeAll x (x # l))"
  unfolding lru_eq_def by (simp add: find_removeAll_other)

text \<open>
  Two pools hold the same: the same frames, page table and file, and equivalent LRU lists.
  The counters \<open>page_hits\<close> and \<open>page_misses\<close> may differ.
\<close>

definition sim :: "BufferPool \<Rightarrow> BufferPool \<Rightarrow> bool" where
  "sim bp bp' \<longleftrightarrow>
     frames bp' = frames bp \<and> page_table bp' = page_table bp \<and> db_file bp' = db_file bp
     \<and> lru_eq (lru_list bp) (lru_list bp')"

lemma sim_refl [simp]: "sim bp bp"
  by (simp add: sim_def)

lemma sim_sym: "sim bp bp' \<Longrightarrow> sim bp' bp"
  by (simp add: sim_def lru_eq_sym)

lemma sim_trans: "sim a b \<Longrightarrow> sim b c \<Longrightarrow> sim a c"
  by (auto simp: sim_def intro: lru_eq_trans)

lemma getPage_sim:
  assumes "sim bp bp'"
  shows "fst (getPage p bp') = fst (getPage p bp) \<and> sim (snd (getPage p bp)) (snd (getPage p bp'))"
proof (cases "page_table bp p")
  case (Some f)
  with assms have "page_table bp' p = Some f" by (simp add: sim_def)
  with Some assms show ?thesis by (simp add: getPage_hit sim_def lru_eq_removeAll)
next
  case None
  with assms have none': "page_table bp' p = None" by (simp add: sim_def)
  from assms have fu: "first_unpinned (frames bp') (lru_list bp') = first_unpinned (frames bp) (lru_list bp)"
    by (simp add: sim_def lru_eq_def first_unpinned_find)
  show ?thesis
  proof (cases "first_unpinned (frames bp) (lru_list bp)")
    case no: None
    with fu have "first_unpinned (frames bp') (lru_list bp') = None" by simp
    with no None none' assms show ?thesis by (simp add: getPage_miss_fail sim_def)
  next
    case (Some v)
    with fu have "first_unpinned (frames bp') (lru_list bp') = Some v" by simp
    with Some None none' assms show ?thesis
      by (simp add: getPage_miss_ok loaded_def Let_def evictFrame_def sim_def lru_eq_remove1)
  qed
qed

lemma releasePage_sim: "sim bp bp' \<Longrightarrow> sim (releasePage p bp) (releasePage p bp')"
  by (auto simp: sim_def releasePage_def split: option.splits)

lemma loaded_shape:
  "page_table (loaded pid v bp) pid = Some v
   \<and> (\<exists>xs y l. frames (loaded pid v bp) = xs[v := y] \<and> is_pinned y
          \<and> lru_list (loaded pid v bp) = v # l)"
proof -
  let ?bp1 = "bp\<lparr>page_misses := page_misses bp + 1, lru_list := remove1 v (lru_list bp)\<rparr>"
  let ?bp2 = "if page_id (frames ?bp1 ! v) \<noteq> 0 then evictFrame v ?bp1 else ?bp1"
  let ?y = "(frames ?bp2 ! v)\<lparr>page_id := pid, is_pinned := True, is_dirty := False,
              data := fst (readPageFromDisk pid (db_file ?bp2))\<rparr>"
  have "frames (loaded pid v bp) = (frames ?bp2)[v := ?y]"
    by (simp add: loaded_def Let_def)
  moreover have "is_pinned ?y" by simp
  moreover have "lru_list (loaded pid v bp) = v # lru_list ?bp2"
    by (simp add: loaded_def Let_def)
  moreover have "page_table (loaded pid v bp) pid = Some v"
    by (simp add: loaded_def Let_def)
  ultimately show ?thesis by blast
qed

text \<open>A second \<open>getPage\<close> for the page that a \<open>getPage\<close> has just returned changes a counter.\<close>

lemma getPage_again:
  assumes "getPage p bp = (Inr f, bp1)"
  shows "fst (getPage p bp1) = Inr f \<and> sim bp1 (snd (getPage p bp1))"
proof -
  have same: "(xs[f := y])[f := (xs[f := y] ! f)\<lparr>is_pinned := True\<rparr>] = xs[f := y]"
    if "is_pinned y" for xs :: "BufferFrame list" and y
  proof (cases "f < length xs")
    case True
    from that have "y\<lparr>is_pinned := True\<rparr> = y" by (cases y) simp
    with True show ?thesis by simp
  next
    case False
    then show ?thesis by (simp add: list_update_beyond)
  qed
  have shape: "page_table bp1 p = Some f
      \<and> (\<exists>xs y l. frames bp1 = xs[f := y] \<and> is_pinned y \<and> lru_list bp1 = f # l)"
  proof (cases "page_table bp p")
    case (Some g)
    from getPage_hit [OF Some] assms have "g = f" and
      "bp1 = bp\<lparr>frames := (frames bp)[f := (frames bp ! f)\<lparr>is_pinned := True\<rparr>],
               lru_list := f # removeAll f (lru_list bp), page_hits := page_hits bp + 1\<rparr>"
      by auto
    with Some show ?thesis
      by (auto intro!: exI [of _ "frames bp"] exI [of _ "(frames bp ! f)\<lparr>is_pinned := True\<rparr>"])
  next
    case None
    show ?thesis
    proof (cases "first_unpinned (frames bp) (lru_list bp)")
      case no: None
      from getPage_miss_fail [OF None no] assms show ?thesis by simp
    next
      case (Some v)
      from getPage_miss_ok [OF None Some] assms have "v = f" "bp1 = loaded p f bp" by simp_all
      with loaded_shape [of p f bp] show ?thesis by simp
    qed
  qed
  then obtain xs y l where s: "page_table bp1 p = Some f" "frames bp1 = xs[f := y]" "is_pinned y"
    "lru_list bp1 = f # l" by blast
  from same [OF s(3), of xs] s(2)
  have fr: "(frames bp1)[f := (frames bp1 ! f)\<lparr>is_pinned := True\<rparr>] = frames bp1" by simp
  from s(1) fr s(4) show ?thesis
    using lru_eq_again [of f l] by (simp add: getPage_hit sim_def)
qed

text \<open>Tables that differ in the counters of their pools (and in \<open>next_tuple_id\<close>).\<close>

definition tsim :: "Table \<Rightarrow> Table \<Rightarrow> bool" where
  "tsim t t' \<longleftrightarrow> sim (buffer_pool t) (buffer_pool t') \<and> schema t' = schema t"

lemma tsim_refl [simp]: "tsim t t"
  by (simp add: tsim_def)

lemma tsim_sym: "tsim t t' \<Longrightarrow> tsim t' t"
  by (simp add: tsim_def sim_sym)

lemma readTuplesFromPage_via:
  assumes "fst (getPage p (buffer_pool t')) = fst (getPage p (buffer_pool t))"
    and "sim (snd (getPage p (buffer_pool t))) (snd (getPage p (buffer_pool t')))"
    and "schema t' = schema t"
  shows "fst (readTuplesFromPage p t') = fst (readTuplesFromPage p t)
       \<and> tsim (snd (readTuplesFromPage p t)) (snd (readTuplesFromPage p t'))"
proof -
  obtain r bp1 where g: "getPage p (buffer_pool t) = (r, bp1)" by (cases "getPage p (buffer_pool t)")
  obtain r' bp1' where g': "getPage p (buffer_pool t') = (r', bp1')"
    by (cases "getPage p (buffer_pool t')")
  from assms(1,2) g g' have r: "r' = r" and s: "sim bp1 bp1'" by simp_all
  from s have fd: "frame_data f bp1' = frame_data f bp1" for f
    by (simp add: frame_data_def sim_def)
  from s have rel: "sim (releasePage p bp1) (releasePage p bp1')" by (rule releasePage_sim)
  from g g' r s rel assms(3) show ?thesis
    by (auto simp: readTuplesFromPage_def tsim_def fd split: sum.splits)
qed

lemma readTuplesFromPage_sim:
  assumes "tsim t t'"
  shows "fst (readTuplesFromPage p t') = fst (readTuplesFromPage p t)
       \<and> tsim (snd (readTuplesFromPage p t)) (snd (readTuplesFromPage p t'))"
  using assms getPage_sim [of "buffer_pool t" "buffer_pool t'" p]
  by (intro readTuplesFromPage_via) (simp_all add: tsim_def)

text \<open>What follows \<open>readTuplesFromPage\<close> in an iteration of the loop of \<open>selectAll\<close>.\<close>

lemma select_walk_after_read:
  "cur \<noteq> 0 \<Longrightarrow> select_walk acc cur t =
     (case readTuplesFromPage cur t of
        (Inl e, t1) \<Rightarrow> Some (Inl e, t1)
      | (Inr page_tuples, t1) \<Rightarrow>
          (case getPage cur (buffer_pool t1) of
             (Inl e, bp) \<Rightarrow> Some (Inl e, t1\<lparr>buffer_pool := bp\<rparr>)
           | (Inr frame, bp) \<Rightarrow>
               (case read_PageHeader (frame_data frame bp) of
                  Inl e \<Rightarrow> Some (Inl e, t1\<lparr>buffer_pool := bp\<rparr>)
                | Inr header \<Rightarrow>
                    select_walk (acc @ page_tuples) (next_page header)
                      (t1\<lparr>buffer_pool := releasePage cur bp\<rparr>))))"
  by (rule select_walk_step)

subsection \<open>A full scan does not depend on the counters\<close>

lemma select_walk_sim:
  assumes "select_walk acc cur t = Some ru" and "tsim t t'"
  shows "\<exists>u'. select_walk acc cur t' = Some (fst ru, u') \<and> tsim (snd ru) u'"
proof -
  have "\<forall>t'. tsim t t' \<longrightarrow> (\<exists>u'. select_walk acc cur t' = Some (fst ru, u') \<and> tsim (snd ru) u')"
  proof (rule select_walk.raw_induct
      [where P = "\<lambda>acc cur t ru. \<forall>t'. tsim t t' \<longrightarrow>
                    (\<exists>u'. select_walk acc cur t' = Some (fst ru, u') \<and> tsim (snd ru) u')",
        OF _ assms(1)])
    fix walk :: "Tuple list \<Rightarrow> PageId \<Rightarrow> Table \<Rightarrow> ((error + Tuple list) \<times> Table) option"
      and acc cur t ru
    assume IH: "\<And>acc cur t ru. walk acc cur t = Some ru \<Longrightarrow>
        \<forall>t'. tsim t t' \<longrightarrow> (\<exists>u'. select_walk acc cur t' = Some (fst ru, u') \<and> tsim (snd ru) u')"
    assume body: "(if cur = 0 then Some (Inr acc, t)
      else case readTuplesFromPage cur t of
           (Inl e, t1) \<Rightarrow> Some (Inl e, t1)
           | (Inr page_tuples, t1) \<Rightarrow>
               (case getPage cur (buffer_pool t1) of
                  (Inl e, bp) \<Rightarrow> Some (Inl e, t1\<lparr>buffer_pool := bp\<rparr>)
                | (Inr frame, bp) \<Rightarrow>
                    (case read_PageHeader (frame_data frame bp) of
                       Inl e \<Rightarrow> Some (Inl e, t1\<lparr>buffer_pool := bp\<rparr>)
                     | Inr header \<Rightarrow>
                         walk (acc @ page_tuples) (next_page header)
                           (t1\<lparr>buffer_pool := releasePage cur bp\<rparr>)))) = Some ru"
    show "\<forall>t'. tsim t t' \<longrightarrow> (\<exists>u'. select_walk acc cur t' = Some (fst ru, u') \<and> tsim (snd ru) u')"
    proof (intro allI impI)
      fix t' assume ts: "tsim t t'"
      show "\<exists>u'. select_walk acc cur t' = Some (fst ru, u') \<and> tsim (snd ru) u'"
      proof (cases "cur = 0")
        case True
        with body ts show ?thesis by (auto simp: select_walk_0)
      next
        case False
        obtain x t1 where rt: "readTuplesFromPage cur t = (x, t1)"
          by (cases "readTuplesFromPage cur t")
        obtain x' t1' where rt': "readTuplesFromPage cur t' = (x', t1')"
          by (cases "readTuplesFromPage cur t'")
        from readTuplesFromPage_sim [OF ts, of cur] rt rt' have x: "x' = x" and ts1: "tsim t1 t1'"
          by simp_all
        show ?thesis
        proof (cases x)
          case (Inl e)
          with body False rt have "ru = (Inl e, t1)" by simp
          with False rt' x Inl ts1 show ?thesis by (simp add: select_walk_step)
        next
          case (Inr page_tuples)
          obtain y bp where g: "getPage cur (buffer_pool t1) = (y, bp)"
            by (cases "getPage cur (buffer_pool t1)")
          obtain y' bp' where g': "getPage cur (buffer_pool t1') = (y', bp')"
            by (cases "getPage cur (buffer_pool t1')")
          from ts1 have s1: "sim (buffer_pool t1) (buffer_pool t1')" and sch: "schema t1' = schema t1"
            by (simp_all add: tsim_def)
          from getPage_sim [OF s1, of cur] g g' have y: "y' = y" and s: "sim bp bp'" by simp_all
          show ?thesis
          proof (cases y)
            case e: (Inl e)
            with body False rt Inr g have "ru = (Inl e, t1\<lparr>buffer_pool := bp\<rparr>)" by simp
            with False rt' x Inr g' y e s sch show ?thesis
              by (simp add: select_walk_step tsim_def)
          next
            case fr: (Inr frame)
            from s have fd: "frame_data frame bp' = frame_data frame bp"
              by (simp add: frame_data_def sim_def)
            show ?thesis
            proof (cases "read_PageHeader (frame_data frame bp)")
              case e: (Inl e)
              with body False rt Inr g fr have "ru = (Inl e, t1\<lparr>buffer_pool := bp\<rparr>)" by simp
              with False rt' x Inr g' y fr fd e s sch show ?thesis
                by (simp add: select_walk_step tsim_def)
            next
              case h: (Inr header)
              let ?t3 = "t1\<lparr>buffer_pool := releasePage cur bp\<rparr>"
              let ?t3' = "t1'\<lparr>buffer_pool := releasePage cur bp'\<rparr>"
              from body False rt Inr g fr h
              have "walk (acc @ page_tuples) (next_page header) ?t3 = Some ru" by simp
              moreover have "tsim ?t3 ?t3'"
                using releasePage_sim [OF s, of cur] sch by (simp add: tsim_def)
              ultimately obtain u' where
                "select_walk (acc @ page_tuples) (next_page header) ?t3' = Some (fst ru, u')"
                "tsim (snd ru) u'" using IH by blast
              with False rt' x Inr g' y fr fd h show ?thesis
                by (simp add: select_walk_step)
            qed
          qed
        qed
      qed
    qed
  qed
  with assms(2) show ?thesis by blast
qed

lemma selectAll_sim:
  assumes "tsim t t'" "first_page_id t' = first_page_id t"
  shows "map_option fst (selectAll t') = map_option fst (selectAll t)"
proof (cases "selectAll t")
  case (Some ru)
  from select_walk_sim [of "[]" "first_page_id t" t ru t'] Some assms
  show ?thesis by (auto simp: selectAll_def)
next
  case None
  show ?thesis
  proof (cases "selectAll t'")
    case (Some ru')
    from select_walk_sim [of "[]" "first_page_id t'" t' ru' t] Some assms tsim_sym [OF assms(1)]
    have "\<exists>u. selectAll t = Some (fst ru', u)" by (auto simp: selectAll_def)
    with None show ?thesis by simp
  next
    case n: None
    with None show ?thesis by simp
  qed
qed

text \<open>
  A table with the first page of the chain already obtained, as an insert leaves it that
  raised right after its first \<open>getPage\<close>: a full scan returns the same.
\<close>

lemma selectAll_after_getPage:
  assumes "buffer_pool t' = snd (getPage (first_page_id t) (buffer_pool t))"
    and "schema t' = schema t" and "first_page_id t' = first_page_id t"
  shows "map_option fst (selectAll t') = map_option fst (selectAll t)"
proof (cases "first_page_id t = 0")
  case True
  with assms(3) show ?thesis by (simp add: selectAll_def select_walk_0)
next
  case False
  let ?p = "first_page_id t"
  obtain r bp1 where g: "getPage ?p (buffer_pool t) = (r, bp1)" by (cases "getPage ?p (buffer_pool t)")
  with assms(1) have bp': "buffer_pool t' = bp1" by simp
  show ?thesis
  proof (cases r)
    case (Inl e)
    have "bp1 = (buffer_pool t)\<lparr>page_misses := page_misses (buffer_pool t) + 1\<rparr>"
    proof (cases "page_table (buffer_pool t) ?p")
      case (Some f)
      from getPage_hit [OF Some] g Inl show ?thesis by simp
    next
      case None
      show ?thesis
      proof (cases "first_unpinned (frames (buffer_pool t)) (lru_list (buffer_pool t))")
        case no: None
        from getPage_miss_fail [OF None no] g show ?thesis by simp
      next
        case (Some v)
        from getPage_miss_ok [OF None Some] g Inl show ?thesis by simp
      qed
    qed
    then have "sim (buffer_pool t) bp1" by (simp add: sim_def)
    with bp' assms(2) have "tsim t t'" by (simp add: tsim_def)
    from selectAll_sim [OF this assms(3)] show ?thesis .
  next
    case (Inr f)
    from getPage_again [of ?p "buffer_pool t" f bp1] g Inr
    have again: "fst (getPage ?p bp1) = Inr f" "sim bp1 (snd (getPage ?p bp1))" by simp_all
    have via: "fst (readTuplesFromPage ?p t') = fst (readTuplesFromPage ?p t)
       \<and> tsim (snd (readTuplesFromPage ?p t)) (snd (readTuplesFromPage ?p t'))"
      using g Inr again bp' assms(2) by (intro readTuplesFromPage_via) simp_all
    obtain x t1 where rt: "readTuplesFromPage ?p t = (x, t1)" by (cases "readTuplesFromPage ?p t")
    obtain x' t1' where rt': "readTuplesFromPage ?p t' = (x', t1')"
      by (cases "readTuplesFromPage ?p t'")
    from via rt rt' have x: "x' = x" and ts1: "tsim t1 t1'" by simp_all
    have one: "\<exists>u'. select_walk [] ?p b = Some (fst ru, u')"
      if run: "select_walk [] ?p a = Some ru"
        and ra: "readTuplesFromPage ?p a = (z, a1)" and rb: "readTuplesFromPage ?p b = (z, b1)"
        and ab: "tsim a1 b1" for a b ru z a1 b1
    proof (cases z)
      case (Inl e)
      with run ra rb False show ?thesis by (auto simp: select_walk_step)
    next
      case (Inr page_tuples)
      obtain y bp where ga: "getPage ?p (buffer_pool a1) = (y, bp)"
        by (cases "getPage ?p (buffer_pool a1)")
      obtain y' bp' where gb: "getPage ?p (buffer_pool b1) = (y', bp')"
        by (cases "getPage ?p (buffer_pool b1)")
      from ab have s1: "sim (buffer_pool a1) (buffer_pool b1)" and sch: "schema b1 = schema a1"
        by (simp_all add: tsim_def)
      from getPage_sim [OF s1, of ?p] ga gb have y: "y' = y" and s: "sim bp bp'" by simp_all
      show ?thesis
      proof (cases y)
        case e: (Inl e)
        with run ra rb False Inr ga gb y show ?thesis by (auto simp: select_walk_step)
      next
        case fr: (Inr frame)
        from s have fd: "frame_data frame bp' = frame_data frame bp"
          by (simp add: frame_data_def sim_def)
        show ?thesis
        proof (cases "read_PageHeader (frame_data frame bp)")
          case e: (Inl e)
          with run ra rb False Inr ga gb y fr fd show ?thesis by (auto simp: select_walk_step)
        next
          case h: (Inr header)
          let ?a3 = "a1\<lparr>buffer_pool := releasePage ?p bp\<rparr>"
          let ?b3 = "b1\<lparr>buffer_pool := releasePage ?p bp'\<rparr>"
          from run ra False Inr ga fr h
          have "select_walk ([] @ page_tuples) (next_page header) ?a3 = Some ru"
            by (simp add: select_walk_step)
          moreover have "tsim ?a3 ?b3"
            using releasePage_sim [OF s, of ?p] sch by (simp add: tsim_def)
          ultimately obtain u' where
            "select_walk ([] @ page_tuples) (next_page header) ?b3 = Some (fst ru, u')"
            using select_walk_sim by blast
          with rb False Inr gb y fr fd h show ?thesis by (simp add: select_walk_step)
        qed
      qed
    qed
    show ?thesis
    proof (cases "selectAll t")
      case (Some ru)
      with one [of t ru x t1 t' t1'] rt rt' x ts1 assms(3) show ?thesis
        by (auto simp: selectAll_def)
    next
      case None
      show ?thesis
      proof (cases "selectAll t'")
        case (Some ru')
        with one [of t' ru' x t1' t t1] rt rt' x tsim_sym [OF ts1] assms(3)
        have "\<exists>u. selectAll t = Some (fst ru', u)" by (auto simp: selectAll_def)
        with None show ?thesis by simp
      next
        case n: None
        with None show ?thesis by simp
      qed
    qed
  qed
qed

subsection \<open>An insert that raises\<close>

lemma getPage_result:
  assumes "getPage p bp = (r, bp1)"
  shows "(r = Inl NoUnpinnedFrames \<and> bp1 = bp\<lparr>page_misses := page_misses bp + 1\<rparr>)
       \<or> (\<exists>f. r = Inr f \<and> page_table bp1 p = Some f)"
proof (cases "page_table bp p")
  case (Some f)
  from getPage_hit [OF Some] assms Some show ?thesis by auto
next
  case None
  show ?thesis
  proof (cases "first_unpinned (frames bp) (lru_list bp)")
    case no: None
    from getPage_miss_fail [OF None no] assms show ?thesis by simp
  next
    case (Some v)
    from getPage_miss_ok [OF None Some] assms loaded_shape [of p v bp] show ?thesis by auto
  qed
qed

lemma pool_ok_getPage:
  assumes "pool_ok bp" "p \<noteq> 0"
  shows "pool_ok (snd (getPage p bp))"
proof (cases "page_table bp p")
  case (Some f)
  from getPage_resident [OF assms(1) Some] show ?thesis by auto
next
  case None
  show ?thesis
  proof (cases "first_unpinned (frames bp) (lru_list bp)")
    case no: None
    from getPage_miss_fail [OF None no] assms(1) show ?thesis
      by (simp add: pool_ok_def pool_inv_def)
  next
    case (Some v)
    from getPage_miss_ok [OF None Some] pool_ok_loaded [OF assms(1) None assms(2) Some]
    show ?thesis by simp
  qed
qed

lemma insertTupleIntoPage_raises:
  assumes "getTupleSize (schema t) tuple = Inl e0"
  shows "\<exists>e. insertTupleIntoPage p tuple t
            = (Inl e, t\<lparr>buffer_pool := snd (getPage p (buffer_pool t))\<rparr>)
          \<and> (e = e0 \<or> e = NoUnpinnedFrames
               \<or> (\<exists>f. fst (getPage p (buffer_pool t)) = Inr f
                    \<and> read_PageHeader (frame_data f (snd (getPage p (buffer_pool t)))) = Inl e))"
proof -
  obtain r bp1 where g: "getPage p (buffer_pool t) = (r, bp1)" by (cases "getPage p (buffer_pool t)")
  from getPage_result [OF g] show ?thesis
  proof
    assume "r = Inl NoUnpinnedFrames \<and> bp1 = (buffer_pool t)\<lparr>page_misses := page_misses (buffer_pool t) + 1\<rparr>"
    with g show ?thesis by (simp add: insertTupleIntoPage_def)
  next
    assume "\<exists>f. r = Inr f \<and> page_table bp1 p = Some f"
    then obtain f where "r = Inr f" by blast
    with g assms show ?thesis
      by (cases "read_PageHeader (frame_data f bp1)") (simp_all add: insertTupleIntoPage_def)
  qed
qed

lemma allocateNewPage_fields:
  "schema (snd (allocateNewPage t)) = schema t
   \<and> first_page_id (snd (allocateNewPage t)) = first_page_id t"
  by (simp add: allocateNewPage_def Let_def split: prod.splits sum.splits)

text \<open>
  C6 (amended). \<open>insertTuple\<close> does not compare a tuple with the schema. For every table
  and every tuple that has a value that is not a string at the position of a VARCHAR column
  (within the length of the value list and of the column list), \<open>insertTuple\<close> raises, and
  a full scan of the table afterwards does what a full scan before the insert does: it
  returns the same tuples, or raises the same exception (or does not return, when the
  chain has a cycle). In a table that has a first page and a pool that satisfies its
  invariant, the exception is \<open>bad_variant_access\<close> from \<open>getTupleSize\<close>, or that of
  \<open>getPage\<close> when the first page is not resident and every frame is pinned.
\<close>

theorem C6_non_string_in_varchar_raises:
  assumes "string_expected (columns (schema t)) (t_values tuple)"
  shows "\<exists>e t'. insertTuple d2s tuple t = Some (Inl e, t')
           \<and> map_option fst (selectAll t') = map_option fst (selectAll t)
           \<and> (pool_ok (buffer_pool t) \<and> first_page_id t \<noteq> 0 \<longrightarrow>
                e = BadVariantAccess \<or> e = NoUnpinnedFrames)"
proof -
  let ?bp = "buffer_pool t"
  let ?p = "first_page_id t"
  obtain nt t0 where a: "assign_id tuple t = (nt, t0)" by (cases "assign_id tuple t")
  from assign_id_table [of tuple t] a have t0: "buffer_pool t0 = ?bp" "schema t0 = schema t"
    "first_page_id t0 = ?p" by simp_all
  from t_values_assign_id [of tuple t] a have "t_values nt = t_values tuple" by simp
  with assms have sz: "getTupleSize (schema t0) nt = Inl BadVariantAccess"
    by (simp add: getTupleSize_def t0 tuple_size_loop_throws)
  show ?thesis
  proof (cases "?p = 0")
    case True
    have "insertTuple d2s tuple t = Some (insert_new_page d2s nt t0)"
      using a True t0 by (simp add: insertTuple_def insert_walk_0)
    moreover have "\<exists>e t'. insert_new_page d2s nt t0 = (Inl e, t') \<and> first_page_id t' = 0"
    proof (cases "allocateNewPage t0")
      case (Pair r t2)
      from allocateNewPage_fields [of t0] Pair have f2: "schema t2 = schema t0"
        "first_page_id t2 = 0" by (simp_all add: t0 True)
      show ?thesis
      proof (cases r)
        case (Inl e)
        with Pair f2 show ?thesis by (simp add: insert_new_page_def)
      next
        case (Inr new_page)
        from sz f2 have "getTupleSize (schema t2) nt = Inl BadVariantAccess" by simp
        from insertTupleIntoPage_raises [OF this, of new_page] obtain e where
          "insertTupleIntoPage new_page nt t2
             = (Inl e, t2\<lparr>buffer_pool := snd (getPage new_page (buffer_pool t2))\<rparr>)" by blast
        with Pair Inr f2 show ?thesis by (simp add: insert_new_page_def)
      qed
    qed
    ultimately obtain e t' where r: "insertTuple d2s tuple t = Some (Inl e, t')"
      and f: "first_page_id t' = 0" by auto
    from f True have "map_option fst (selectAll t') = map_option fst (selectAll t)"
      by (simp add: selectAll_def select_walk_0)
    with r True show ?thesis by auto
  next
    case False
    let ?g = "getPage ?p ?bp"
    let ?t' = "t0\<lparr>buffer_pool := snd ?g\<rparr>"
    from insertTupleIntoPage_raises [OF sz, of ?p] obtain e where
      e: "insertTupleIntoPage ?p nt t0 = (Inl e, ?t')"
      and kind: "e = BadVariantAccess \<or> e = NoUnpinnedFrames
           \<or> (\<exists>f. fst ?g = Inr f \<and> read_PageHeader (frame_data f (snd ?g)) = Inl e)"
      by (auto simp: t0)
    have "insert_walk d2s nt (first_page_id t0) t0 = Some (Inl e, ?t')"
      using False e t0 by (simp add: insert_walk_step)
    with a have r: "insertTuple d2s tuple t = Some (Inl e, ?t')" by (simp add: insertTuple_def)
    have scan: "map_option fst (selectAll ?t') = map_option fst (selectAll t)"
      by (rule selectAll_after_getPage) (simp_all add: t0)
    have "e = BadVariantAccess \<or> e = NoUnpinnedFrames" if ok: "pool_ok ?bp"
    proof -
      have "read_PageHeader (frame_data f (snd ?g)) \<noteq> Inl e" if f: "fst ?g = Inr f" for f
      proof -
        obtain r bp1 where g: "?g = (r, bp1)" by (cases ?g)
        from getPage_result [OF g] f g have pt: "page_table bp1 ?p = Some f" by auto
        from pool_ok_getPage [OF ok False] g have "pool_ok bp1" by simp
        from pool_ok_frame [OF this pt] have "length (data (frames bp1 ! f)) = PAGE_SIZE" by simp
        with g show ?thesis by (simp add: frame_data_def read_PageHeader_page)
      qed
      with kind show ?thesis by blast
    qed
    with r scan show ?thesis by blast
  qed
qed

text \<open>
  An instance: a new table with one VARCHAR column that holds one row, and an insert of an
  integer.
\<close>

theorem C6_witness:
  "\<exists>t0 t1 t'. new_Table ''t'' text_schema empty_file = Some (Inr (), t0)
     \<and> insertTuple no_d2s (text_row 10) t0 = Some (Inr True, t1)
     \<and> string_expected (columns (schema t1)) [VInt 7]
     \<and> insertTuple no_d2s \<lparr>t_id = 0, t_values = [VInt 7]\<rparr> t1 = Some (Inl BadVariantAccess, t')
     \<and> map_option fst (selectAll t1)
         = Some (Inr [\<lparr>t_id = 1, t_values = [VString (replicate 10 (CHR ''a''))]\<rparr>])
     \<and> map_option fst (selectAll t')
         = Some (Inr [\<lparr>t_id = 1, t_values = [VString (replicate 10 (CHR ''a''))]\<rparr>])"
proof -
  let ?t0 = "snd (the (new_Table ''t'' text_schema empty_file))"
  let ?t1 = "snd (the (insertTuple no_d2s (text_row 10) ?t0))"
  let ?bad = "\<lparr>t_id = 0, t_values = [VInt 7]\<rparr>"
  let ?t' = "snd (the (insertTuple no_d2s ?bad ?t1))"
  have a: "new_Table ''t'' text_schema empty_file = Some (Inr (), ?t0)"
    by (simp add: pool_eval table_eval lazy_pool)
  have b: "insertTuple no_d2s (text_row 10) ?t0 = Some (Inr True, ?t1)"
    by (simp add: pool_eval table_eval lazy_pool no_d2s_def)
  have se: "string_expected (columns (schema ?t1)) (t_values ?bad)"
    by (simp add: pool_eval table_eval lazy_pool no_d2s_def)
  have c: "insertTuple no_d2s ?bad ?t1 = Some (Inl BadVariantAccess, ?t')"
    by (simp add: pool_eval table_eval lazy_pool no_d2s_def)
  have d: "map_option fst (selectAll ?t1)
         = Some (Inr [\<lparr>t_id = 1, t_values = [VString (replicate 10 (CHR ''a''))]\<rparr>])"
    by (simp add: pool_eval table_eval lazy_pool no_d2s_def)
  from C6_non_string_in_varchar_raises [OF se, of no_d2s] c
  have "map_option fst (selectAll ?t') = map_option fst (selectAll ?t1)" by auto
  with a b se c d show ?thesis by (intro exI [of _ ?t0] exI [of _ ?t1] exI [of _ ?t']) simp
qed

subsection \<open>Operations on the frame of one page\<close>

text \<open>Two pools differ in the frame \<open>f\<close> at most (and in the LRU order and the counters).\<close>

definition only_frame :: "BufferFrameId \<Rightarrow> BufferPool \<Rightarrow> BufferPool \<Rightarrow> bool" where
  "only_frame f bp bp' \<longleftrightarrow>
     page_table bp' = page_table bp \<and> length (frames bp') = length (frames bp)
     \<and> (\<forall>g. g \<noteq> f \<longrightarrow> frames bp' ! g = frames bp ! g)"

lemma only_frame_refl [simp]: "only_frame f bp bp"
  by (simp add: only_frame_def)

lemma only_frame_trans: "only_frame f a b \<Longrightarrow> only_frame f b c \<Longrightarrow> only_frame f a c"
  by (simp add: only_frame_def)

lemma only_frame_table: "only_frame f bp bp' \<Longrightarrow> page_table bp' = page_table bp"
  by (simp add: only_frame_def)

lemma only_frame_agree:
  assumes "pool_ok bp" "page_table bp p = Some f" "p \<notin> S" "only_frame f bp bp'"
  shows "agree S bp bp'"
  unfolding agree_def
proof (intro ballI conjI allI impI)
  fix q assume q: "q \<in> S"
  show "page_table bp' q = page_table bp q" using assms(4) by (simp add: only_frame_def)
  fix g assume g: "page_table bp q = Some g"
  have "g \<noteq> f"
  proof
    assume "g = f"
    with g have "page_table bp q = Some f" by simp
    from pool_ok_inj [OF assms(1) this assms(2)] q assms(3) show False by simp
  qed
  with assms(4) show "data (frames bp' ! g) = data (frames bp ! g)" by (simp add: only_frame_def)
qed

lemma only_frame_pinned:
  assumes "pool_ok bp" "page_table bp p = Some f" "p \<notin> S" "only_frame f bp bp'"
    and "pinned_pages S bp"
  shows "pinned_pages S bp'"
  unfolding pinned_pages_def
proof
  fix q assume q: "q \<in> S"
  with assms(5) obtain g where g: "page_table bp q = Some g" "is_pinned (frames bp ! g)"
    by (auto simp: pinned_pages_def)
  have "g \<noteq> f"
  proof
    assume "g = f"
    with g have "page_table bp q = Some f" by simp
    from pool_ok_inj [OF assms(1) this assms(2)] q assms(3) show False by simp
  qed
  with assms(4) g show "\<exists>f. page_table bp' q = Some f \<and> is_pinned (frames bp' ! f)"
    by (simp add: only_frame_def)
qed

lemma getPage_only:
  assumes "pool_ok bp" "page_table bp p = Some f"
  shows "\<exists>bp'. getPage p bp = (Inr f, bp') \<and> pool_ok bp' \<and> only_frame f bp bp'
           \<and> data (frames bp' ! f) = data (frames bp ! f)"
proof -
  from getPage_resident [OF assms] obtain bp' where bp':
    "getPage p bp = (Inr f, bp')" "pool_ok bp'" "same_pages bp bp'" by blast
  from pool_ok_frame [OF assms] have f: "f < length (frames bp)" by simp
  from bp'(1) getPage_hit [OF assms(2)] have
    "bp' = bp\<lparr>frames := (frames bp)[f := (frames bp ! f)\<lparr>is_pinned := True\<rparr>],
              lru_list := f # removeAll f (lru_list bp), page_hits := page_hits bp + 1\<rparr>"
    by simp
  then have "only_frame f bp bp'" by (simp add: only_frame_def)
  with bp' same_pages_data [OF bp'(3), of f] show ?thesis by blast
qed

lemma releasePage_only:
  assumes "pool_ok bp" "page_table bp p = Some f"
  shows "pool_ok (releasePage p bp) \<and> only_frame f bp (releasePage p bp)
       \<and> \<not> is_pinned (frames (releasePage p bp) ! f)"
proof -
  from pool_ok_frame [OF assms] have f: "f < length (frames bp)" by simp
  with assms(2) have "only_frame f bp (releasePage p bp)"
    "\<not> is_pinned (frames (releasePage p bp) ! f)"
    by (simp_all add: only_frame_def releasePage_def)
  with releasePage_facts [OF assms(1), of p] show ?thesis by simp
qed

lemma markDirty_only:
  assumes "pool_ok bp" "page_table bp p = Some f"
  shows "pool_ok (markDirty p bp) \<and> only_frame f bp (markDirty p bp)"
proof -
  from assms(2) have "only_frame f bp (markDirty p bp)"
    by (simp add: only_frame_def markDirty_def)
  with markDirty_facts [OF assms(1), of p] show ?thesis by simp
qed

lemma set_frame_data_only:
  assumes "pool_ok bp" "page_table bp p = Some f" "length d = PAGE_SIZE"
  shows "pool_ok (set_frame_data f d bp) \<and> only_frame f bp (set_frame_data f d bp)"
proof -
  have "only_frame f bp (set_frame_data f d bp)"
    by (simp add: only_frame_def set_frame_data_def)
  with set_frame_data_facts [OF assms, of "{}"] show ?thesis by simp
qed

text \<open>A page buffer written back: \<open>memcpy\<close>, \<open>markDirty\<close>, \<open>releasePage\<close>.\<close>

lemma write_back:
  assumes "pool_ok bp" "page_table bp p = Some f" "length d = PAGE_SIZE"
  shows "pool_ok (releasePage p (markDirty p (set_frame_data f d bp)))
       \<and> only_frame f bp (releasePage p (markDirty p (set_frame_data f d bp)))
       \<and> \<not> is_pinned (frames (releasePage p (markDirty p (set_frame_data f d bp))) ! f)"
proof -
  let ?a = "set_frame_data f d bp"
  let ?b = "markDirty p ?a"
  from set_frame_data_only [OF assms] have a: "pool_ok ?a" "only_frame f bp ?a" by simp_all
  from a(2) assms(2) have pa: "page_table ?a p = Some f" by (simp add: only_frame_def)
  from markDirty_only [OF a(1) pa] have b: "pool_ok ?b" "only_frame f ?a ?b" by simp_all
  from b(2) pa have pb: "page_table ?b p = Some f" by (simp add: only_frame_def)
  from releasePage_only [OF b(1) pb] have c: "pool_ok (releasePage p ?b)"
    "only_frame f ?b (releasePage p ?b)" "\<not> is_pinned (frames (releasePage p ?b) ! f)"
    by simp_all
  from a(2) b(2) have "only_frame f bp ?b" by (rule only_frame_trans)
  from this c(2) have "only_frame f bp (releasePage p ?b)" by (rule only_frame_trans)
  with c show ?thesis by simp
qed

lemma poke_length: "poke b off xs = Inr b' \<Longrightarrow> length b' = length b"
  by (auto simp: poke_def split: if_splits)

lemma write_values_length: "write_values vs b off = Inr (b', off') \<Longrightarrow> length b' = length b"
proof (induction vs arbitrary: b off)
  case Nil
  then show ?case by simp
next
  case (Cons v vs)
  then show ?case
    by (cases v) (auto simp: Let_def poke_def split: sum.splits if_splits)
qed

lemma serializeTuple_length:
  "serializeTuple sch tuple b off = Inr (b', n) \<Longrightarrow> length b' = length b"
proof -
  assume a: "serializeTuple sch tuple b off = Inr (b', n)"
  then obtain sz b1 n' where
    "poke b off (TupleHeader_bytes \<lparr>tuple_size = of_nat sz, next_tuple_offset = 0, tuple_id = t_id tuple\<rparr>)
       = Inr b1"
    "write_values (t_values tuple) b1 (off + sizeof_TupleHeader) = Inr (b', n')"
    by (auto simp: serializeTuple_def Let_def split: sum.splits prod.splits)
  then show ?thesis using poke_length write_values_length by metis
qed

text \<open>
  Whatever \<open>insertTupleIntoPage\<close> does with a resident page, it touches the frame of that
  page only.
\<close>

lemma insertTupleIntoPage_only:
  assumes "pool_ok (buffer_pool t)" "page_table (buffer_pool t) p = Some f"
  shows "\<exists>r bp'. insertTupleIntoPage p tuple t = (r, t\<lparr>buffer_pool := bp'\<rparr>)
           \<and> pool_ok bp' \<and> only_frame f (buffer_pool t) bp'"
proof -
  let ?bp = "buffer_pool t"
  from getPage_only [OF assms] obtain bp1 where bp1:
    "getPage p ?bp = (Inr f, bp1)" "pool_ok bp1" "only_frame f ?bp bp1"
    "data (frames bp1 ! f) = data (frames ?bp ! f)" by blast
  from pool_ok_frame [OF assms] have len: "length (data (frames ?bp ! f)) = PAGE_SIZE" by simp
  let ?h = "page_hdr (data (frames ?bp ! f))"
  have hdr: "read_PageHeader (frame_data f bp1) = Inr ?h"
    using bp1(4) len by (simp add: frame_data_def read_PageHeader_page)
  have fd: "frame_data f bp1 = data (frames ?bp ! f)" using bp1(4) by (simp add: frame_data_def)
  have pt1: "page_table bp1 p = Some f" using bp1(3) assms(2) by (simp add: only_frame_def)
  have stay: "\<exists>r bp'. (r0, t\<lparr>buffer_pool := bp1\<rparr>) = (r, t\<lparr>buffer_pool := bp'\<rparr>)
           \<and> pool_ok bp' \<and> only_frame f ?bp bp'" for r0 :: "error + bool"
    using bp1(2,3) by blast
  show ?thesis
  proof (cases "getTupleSize (schema t) tuple")
    case (Inl e)
    with bp1(1) hdr stay [of "Inl e"] show ?thesis by (simp add: insertTupleIntoPage_def)
  next
    case (Inr sz)
    show ?thesis
    proof (cases "unat (free_space ?h) < sz")
      case True
      from releasePage_only [OF bp1(2) pt1] have "pool_ok (releasePage p bp1)"
        "only_frame f bp1 (releasePage p bp1)" by simp_all
      with bp1(3) have "pool_ok (releasePage p bp1)" "only_frame f ?bp (releasePage p bp1)"
        by (auto intro: only_frame_trans)
      moreover have "insertTupleIntoPage p tuple t = (Inr False, t\<lparr>buffer_pool := releasePage p bp1\<rparr>)"
        using bp1(1) hdr Inr True by (simp add: insertTupleIntoPage_def)
      ultimately show ?thesis by blast
    next
      case False
      show ?thesis
      proof (cases "skip_tuples (data (frames ?bp ! f)) sizeof_PageHeader (unat (tuple_count ?h))")
        case (Inl e)
        with bp1(1) hdr fd \<open>getTupleSize (schema t) tuple = Inr sz\<close> False stay [of "Inl e"]
        show ?thesis by (simp add: insertTupleIntoPage_def)
      next
        case off: (Inr offset)
        show ?thesis
        proof (cases "serializeTuple (schema t) tuple (data (frames ?bp ! f)) offset")
          case (Inl e)
          with bp1(1) hdr fd \<open>getTupleSize (schema t) tuple = Inr sz\<close> False off stay [of "Inl e"]
          show ?thesis by (simp add: insertTupleIntoPage_def)
        next
          case ser: (Inr dw)
          obtain d w where dw: "dw = (d, w)" by (cases dw)
          from ser dw serializeTuple_length have ld: "length d = PAGE_SIZE" using len by fastforce
          let ?h' = "?h\<lparr>tuple_count := tuple_count ?h + 1, free_space := free_space ?h - of_nat w\<rparr>"
          from poke_header [OF ld, of ?h'] obtain d' where d':
            "poke d 0 (PageHeader_bytes ?h') = Inr d'" "length d' = PAGE_SIZE" by blast
          let ?bp4 = "releasePage p (markDirty p (set_frame_data f d' bp1))"
          from write_back [OF bp1(2) pt1 d'(2)] have "pool_ok ?bp4" "only_frame f bp1 ?bp4"
            by simp_all
          with bp1(3) have "pool_ok ?bp4" "only_frame f ?bp ?bp4"
            by (auto intro: only_frame_trans)
          moreover have "insertTupleIntoPage p tuple t = (Inr True, t\<lparr>buffer_pool := ?bp4\<rparr>)"
            using bp1(1) hdr fd \<open>getTupleSize (schema t) tuple = Inr sz\<close> False off ser dw d'(1)
            by (simp add: insertTupleIntoPage_def)
          ultimately show ?thesis by blast
        qed
      qed
    qed
  qed
qed


subsection \<open>Pins across an allocation\<close>

lemma getPage_miss_pinned:
  assumes "pool_ok bp" "page_table bp pid = None" "pid \<noteq> 0" "pinned_pages S bp"
    and "getPage pid bp = (Inr v, bp')"
  shows "pinned_pages S bp'"
proof (cases "first_unpinned (frames bp) (lru_list bp)")
  case None
  from getPage_miss_fail [OF assms(2) None] assms(5) show ?thesis by simp
next
  case (Some v')
  from getPage_miss_ok [OF assms(2) Some] assms(5) have bp': "bp' = loaded pid v' bp" by simp
  from Some have unp: "\<not> is_pinned (frames bp ! v')" by (auto dest: first_unpinned_Some)
  have fg: "frames (loaded pid v' bp) ! g = frames bp ! g" if "g \<noteq> v'" for g
    using that by (simp add: loaded_def Let_def evictFrame_def)
  from getPage_fresh [OF assms(1-4)] assms(5) have ag: "agree S bp bp'" by auto
  show ?thesis
    unfolding pinned_pages_def
  proof
    fix q assume q: "q \<in> S"
    with assms(4) obtain g where g: "page_table bp q = Some g" "is_pinned (frames bp ! g)"
      by (auto simp: pinned_pages_def)
    with unp have "g \<noteq> v'" by auto
    with g(2) have "is_pinned (frames bp' ! g)" by (simp add: bp' fg)
    moreover from ag q g(1) have "page_table bp' q = Some g" by (simp add: agree_def)
    ultimately show "\<exists>f. page_table bp' q = Some f \<and> is_pinned (frames bp' ! f)" by blast
  qed
qed

lemma allocateNewPage_pinned:
  assumes "pool_ok (buffer_pool t)" "pinned_pages S (buffer_pool t)"
    and "next_page_id t \<notin> S" "next_page_id t \<noteq> 0"
  shows "pinned_pages S (buffer_pool (snd (allocateNewPage t)))"
proof -
  let ?bp = "buffer_pool t"
  let ?new = "next_page_id t"
  let ?h = "\<lparr>PageHeader.page_id = ?new, free_space = of_nat (PAGE_SIZE - sizeof_PageHeader),
             tuple_count = 0, next_page = 0\<rparr>"
  have written: ?thesis
    if g: "getPage ?new ?bp = (Inr f, bp1)" and ok1: "pool_ok bp1"
      and pt1: "page_table bp1 ?new = Some f" and pin1: "pinned_pages S bp1" for f bp1
  proof -
    from pool_ok_frame [OF ok1 pt1] have len: "length (data (frames bp1 ! f)) = PAGE_SIZE" by simp
    from poke_header [OF len, of ?h] obtain d where d:
      "poke (data (frames bp1 ! f)) 0 (PageHeader_bytes ?h) = Inr d" "length d = PAGE_SIZE"
      by blast
    let ?bp4 = "releasePage ?new (markDirty ?new (set_frame_data f d bp1))"
    from write_back [OF ok1 pt1 d(2)] have "only_frame f bp1 ?bp4" by simp
    with ok1 pt1 assms(3) have "pinned_pages S ?bp4" using pin1 by (rule only_frame_pinned)
    moreover have "buffer_pool (snd (allocateNewPage t)) = ?bp4"
      using g d(1) by (simp add: allocateNewPage_def Let_def frame_data_def)
    ultimately show ?thesis by simp
  qed
  show ?thesis
  proof (cases "page_table ?bp ?new")
    case (Some f)
    from getPage_only [OF assms(1) Some] obtain bp1 where bp1:
      "getPage ?new ?bp = (Inr f, bp1)" "pool_ok bp1" "only_frame f ?bp bp1" by blast
    have "page_table bp1 ?new = Some f" using bp1(3) Some by (simp add: only_frame_def)
    moreover have "pinned_pages S bp1"
      using assms(1) Some assms(3) bp1(3) assms(2) by (rule only_frame_pinned)
    ultimately show ?thesis using bp1(1,2) by (intro written)
  next
    case None
    show ?thesis
    proof (cases "first_unpinned (frames ?bp) (lru_list ?bp)")
      case no: None
      from getPage_miss_fail [OF None no] assms(2) show ?thesis
        by (simp add: allocateNewPage_def Let_def pinned_pages_def)
    next
      case (Some v)
      from getPage_miss_ok [OF None Some] have g: "getPage ?new ?bp = (Inr v, loaded ?new v ?bp)" .
      from Some have "v \<in> set (lru_list ?bp)" by (auto dest: first_unpinned_Some)
      with assms(1) have v: "v < length (frames ?bp)" by (auto simp: pool_ok_def pool_inv_def)
      have "pool_ok (loaded ?new v ?bp)" using assms(1) None assms(4) Some by (rule pool_ok_loaded)
      moreover have "page_table (loaded ?new v ?bp) ?new = Some v" using v by (rule loaded_facts(1))
      moreover have "pinned_pages S (loaded ?new v ?bp)"
        using assms(1) None assms(4) assms(2) g by (rule getPage_miss_pinned)
      ultimately show ?thesis using g by (intro written)
    qed
  qed
qed

lemma pinned_pages_tl: "pinned_pages (set ps) bp \<Longrightarrow> pinned_pages (set (tl ps)) bp"
  by (cases ps) (simp_all add: pinned_pages_def)

subsection \<open>Pages left pinned\<close>


subsection \<open>Pages that are held\<close>

text \<open>The page \<open>q\<close> is resident in the frame \<open>g\<close>, and the frame is pinned.\<close>

definition held :: "BufferPool \<Rightarrow> PageId \<Rightarrow> BufferFrameId \<Rightarrow> bool" where
  "held bp q g \<longleftrightarrow> page_table bp q = Some g \<and> is_pinned (frames bp ! g)"

text \<open>
  Every page that is held in \<open>bp\<close>, the pages of \<open>X\<close> apart, is held in \<open>bp'\<close> in the same
  frame, with the same bytes.
\<close>

definition keeps :: "BufferPool \<Rightarrow> BufferPool \<Rightarrow> PageId set \<Rightarrow> bool" where
  "keeps bp bp' X \<longleftrightarrow>
     (\<forall>q g. q \<notin> X \<longrightarrow> held bp q g \<longrightarrow>
        held bp' q g \<and> data (frames bp' ! g) = data (frames bp ! g))"

lemma keeps_refl [simp]: "keeps bp bp X"
  by (simp add: keeps_def)


lemma keeps_mono: "keeps a b X \<Longrightarrow> X \<subseteq> Y \<Longrightarrow> keeps a b Y"
  unfolding keeps_def by blast


lemma held_nonzero: "pool_ok bp \<Longrightarrow> held bp q g \<Longrightarrow> q \<noteq> 0"
  by (auto simp: held_def pool_ok_def pool_inv_def)





text \<open>The chain from \<open>p\<close> leads over the resident pages \<open>ps\<close> to the page \<open>q\<close>.\<close>

fun path :: "BufferPool \<Rightarrow> PageId \<Rightarrow> PageId list \<Rightarrow> PageId \<Rightarrow> bool" where
  "path bp p [] q \<longleftrightarrow> p = q"
| "path bp p (x # xs) q \<longleftrightarrow>
     p = x \<and> x \<noteq> 0 \<and>
     (case page_table bp x of
        None \<Rightarrow> False
      | Some f \<Rightarrow> path bp (next_page (page_hdr (data (frames bp ! f)))) xs q)"


lemma path_nonzero: "path bp p ps q \<Longrightarrow> 0 \<notin> set ps"
  by (induction ps arbitrary: p) (auto split: option.splits)

subsection \<open>The loop of getTupleCount\<close>



subsection \<open>The loop of insertTuple\<close>





subsection \<open>The new page and the link\<close>





subsection \<open>Pages left pinned, in every table\<close>





end
